theory Spec2Isabelle
  imports Main "HOL-Library.Sublist"
begin

section \<open>Strings, decimal numerals and JavaScript string primitives\<close>

text \<open>
  JavaScript strings are modelled as \<^typ>\<open>string\<close>: one \<^typ>\<open>char\<close> stands for one
  code unit. Everything the program inspects is ASCII (space, hyphen, dot, the
  decimal digits, the table of alias keys); case folding is modelled on the ASCII letters.
  The values \<open>null\<close> and \<open>undefined\<close> of a \<open>string | null | undefined\<close> are \<^term>\<open>None\<close>.
\<close>

definition is_digit :: "char \<Rightarrow> bool" where
  "is_digit c = (c \<in> set ''0123456789'')"

text \<open>The value of a decimal digit (its code minus the code of \<open>0\<close>) and the digit of a value.\<close>

definition digit_val :: "char \<Rightarrow> nat" where
  "digit_val c = of_char c - 48"

definition digit_char :: "nat \<Rightarrow> char" where
  "digit_char n = ''0123456789'' ! (n mod 10)"

text \<open>\<open>+s\<close> on a string of decimal digits: its value (leading zeros allowed).\<close>

definition read_nat :: "string \<Rightarrow> nat" where
  "read_nat s = foldl (\<lambda>acc c. 10 * acc + digit_val c) 0 s"

text \<open>Number-to-string conversion of a non-negative integer: decimal, no leading zero.\<close>

function show_nat :: "nat \<Rightarrow> string" where
  "show_nat n = (if n < 10 then [digit_char n] else show_nat (n div 10) @ [digit_char (n mod 10)])"
  by pat_completeness auto
termination
  by (relation "measure (\<lambda>n. n)") auto

declare show_nat.simps [simp del]

text \<open>
  \<open>s.split(c)\<close> for a one-character separator: the pieces between the occurrences of
  \<open>c\<close>; a string without \<open>c\<close> (the empty string too) gives one piece.
\<close>

fun split_on :: "char \<Rightarrow> string \<Rightarrow> string list" where
  "split_on c [] = [[]]"
| "split_on c (x # xs) =
     (if x = c then [] # split_on c xs
      else (case split_on c xs of p # ps \<Rightarrow> (x # p) # ps | [] \<Rightarrow> [[x]]))"

text \<open>
  Array destructuring \<open>const [a, b] = pieces\<close>: a missing position is \<open>undefined\<close>.
\<close>

definition piece :: "string list \<Rightarrow> nat \<Rightarrow> string option" where
  "piece ps i = (if i < length ps then Some (ps ! i) else None)"

text \<open>\<open>s.indexOf(c) > 0\<close> for a one-character \<open>c\<close>: the first occurrence is not at index 0.\<close>

definition indexOf_pos :: "char \<Rightarrow> string \<Rightarrow> bool" where
  "indexOf_pos c s = (case s of [] \<Rightarrow> False | x # xs \<Rightarrow> x \<noteq> c \<and> c \<in> set xs)"

definition lower_char :: "char \<Rightarrow> char" where
  "lower_char c =
     (if 65 \<le> (of_char c :: nat) \<and> (of_char c :: nat) \<le> 90 then char_of (of_char c + 32 :: nat)
      else c)"

definition toLowerCase :: "string \<Rightarrow> string" where
  "toLowerCase s = map lower_char s"

section \<open>The semver engine\<close>

text \<open>
  The program imports the package \<open>semver\<close> and calls \<open>coerce\<close>, \<open>gte\<close>, \<open>inc\<close> and
  \<open>satisfies\<close>. The package is not part of the repository; the definitions of this
  section model the four entry points on the inputs the program passes to them.
  A parsed version is a triple of numbers; the package refuses a component above
  \<open>Number.MAX_SAFE_INTEGER\<close>.
\<close>

record SemVer =
  major :: nat
  minor :: nat
  patch :: nat

definition MAX_SAFE_INTEGER :: nat where
  "MAX_SAFE_INTEGER = 9007199254740991"

definition MAX_SAFE_COMPONENT_LENGTH :: nat where
  "MAX_SAFE_COMPONENT_LENGTH = 16"

definition valid_semver :: "SemVer \<Rightarrow> bool" where
  "valid_semver v =
     (major v \<le> MAX_SAFE_INTEGER \<and> minor v \<le> MAX_SAFE_INTEGER \<and> patch v \<le> MAX_SAFE_INTEGER)"

text \<open>The field \<open>version\<close> of a parsed version: \<open>major.minor.patch\<close>.\<close>

definition format_semver :: "SemVer \<Rightarrow> string" where
  "format_semver v = show_nat (major v) @ ''.'' @ show_nat (minor v) @ ''.'' @ show_nat (patch v)"

text \<open>
  Modelled from the spec: the Semver Engine capability \<open>coerce(token, {loose: true})\<close>
  of section 6, whose code is the package's and not under src/. The package searches
  the token for the first match of
  \<^verbatim>\<open>(^|[^\d])(\d{1,16})(?:\.(\d{1,16}))?(?:\.(\d{1,16}))?(?:$|[^\d])\<close>
  and parses \<open>major.minor.patch\<close> loosely, a missing group read as \<open>0\<close>. A match
  cannot begin inside a run of digits and a run of more than 16 digits cannot be
  followed by the closing group, so the first match is at the first maximal run of
  1 to 16 digits; \<open>coerce_groups\<close> are the two optional groups after it.
\<close>

definition coerce_group :: "string \<Rightarrow> (string \<times> string) option" where
  "coerce_group r =
     (case r of
        [] \<Rightarrow> None
      | c # r' \<Rightarrow>
          (let ds = takeWhile is_digit r' in
           if c = CHR ''.'' \<and> 1 \<le> length ds \<and> length ds \<le> MAX_SAFE_COMPONENT_LENGTH
           then Some (ds, dropWhile is_digit r') else None))"

definition coerce_groups :: "string \<Rightarrow> string option \<times> string option" where
  "coerce_groups r =
     (case coerce_group r of
        None \<Rightarrow> (None, None)
      | Some (mi, r2) \<Rightarrow>
          (case coerce_group r2 of
             None \<Rightarrow> (Some mi, None)
           | Some (pa, r3) \<Rightarrow> (Some mi, Some pa)))"

function coerce_match :: "string \<Rightarrow> (string \<times> string option \<times> string option) option" where
  "coerce_match s =
     (if s = [] then None
      else (let ds = takeWhile is_digit s; r = dropWhile is_digit s in
            if ds = [] then coerce_match (tl s)
            else if length ds \<le> MAX_SAFE_COMPONENT_LENGTH then Some (ds, coerce_groups r)
            else coerce_match r))"
  by pat_completeness auto
termination
proof (relation "measure length")
  show "wf (measure length)" by simp
next
  fix s :: string and ds r
  assume "s \<noteq> []"
  then show "(tl s, s) \<in> measure length" by (cases s) simp_all
next
  fix s :: string and ds r
  assume "s \<noteq> []" "ds = takeWhile is_digit s" "r = dropWhile is_digit s" "ds \<noteq> []"
  then have "0 < length (takeWhile is_digit s)" by simp
  moreover have "length (takeWhile is_digit s) + length (dropWhile is_digit s) = length s"
    by (metis length_append takeWhile_dropWhile_id)
  ultimately have "length (dropWhile is_digit s) < length s" by arith
  then show "(r, s) \<in> measure length"
    using \<open>r = dropWhile is_digit s\<close> by simp
qed

declare coerce_match.simps [simp del]

definition or_zero :: "string option \<Rightarrow> string" where
  "or_zero g = (case g of None \<Rightarrow> ''0'' | Some ds \<Rightarrow> ds)"

definition semver_coerce :: "string \<Rightarrow> SemVer option" where
  "semver_coerce s =
     (case coerce_match s of
        None \<Rightarrow> None
      | Some (ma, mi, pa) \<Rightarrow>
          (let v = \<lparr>major = read_nat ma, minor = read_nat (or_zero mi), patch = read_nat (or_zero pa)\<rparr>
           in if valid_semver v then Some v else None))"

text \<open>
  Modelled from the spec: \<open>new SemVer(s)\<close> in strict mode, which \<open>gte\<close>, \<open>inc\<close> and
  \<open>satisfies\<close> of the Semver Engine apply to their string arguments; \<^term>\<open>None\<close> is the
  TypeError the constructor throws. The program passes only the \<open>version\<close> field of a
  coerced version or the result of \<open>inc\<close>, so the model reads three numeric identifiers
  (\<^verbatim>\<open>0|[1-9]\d*\<close>) separated by dots; the prerelease and build suffixes of the
  package's grammar never occur in these strings and are not modelled.
\<close>

definition numeric_identifier :: "string \<Rightarrow> bool" where
  "numeric_identifier s =
     (case s of [] \<Rightarrow> False | c # cs \<Rightarrow> list_all is_digit (c # cs) \<and> (if c = CHR ''0'' then cs = [] else True))"

definition semver_parse :: "string \<Rightarrow> SemVer option" where
  "semver_parse s =
     (case split_on CHR ''.'' s of
        [a, b, c] \<Rightarrow>
          (if numeric_identifier a \<and> numeric_identifier b \<and> numeric_identifier c
           then (let v = \<lparr>major = read_nat a, minor = read_nat b, patch = read_nat c\<rparr>
                 in if valid_semver v then Some v else None)
           else None)
      | _ \<Rightarrow> None)"

text \<open>\<open>a.compare(b) >= 0\<close> on versions without prerelease: major, then minor, then patch.\<close>

definition semver_ge :: "SemVer \<Rightarrow> SemVer \<Rightarrow> bool" where
  "semver_ge a b =
     (major b < major a \<or>
      (major a = major b \<and> (minor b < minor a \<or> (minor a = minor b \<and> patch b \<le> patch a))))"

text \<open>
  What the program can throw: the TypeError of \<open>new SemVer\<close> on an invalid version, the
  RangeError of an array that cannot grow, the TypeError of reading \<open>indexOf\<close> of
  \<open>undefined\<close>, the TypeError of calling a \<open>toLowerCase\<close> that is not a function, and
  whatever \<open>browserslist\<close> throws.
\<close>

datatype error =
    Invalid_Version
  | Invalid_array_length
  | Undefined_indexOf
  | Not_a_function
  | Browserslist_error string

text \<open>
  Modelled from the spec: \<open>gte(a, b)\<close> of the Semver Engine: both arguments are parsed
  (an invalid one throws, here \<^term>\<open>Inl Invalid_Version\<close>) and compared.
\<close>

definition semver_gte :: "string \<Rightarrow> string \<Rightarrow> error + bool" where
  "semver_gte a b =
     (case semver_parse a of
        None \<Rightarrow> Inl Invalid_Version
      | Some va \<Rightarrow>
          (case semver_parse b of
             None \<Rightarrow> Inl Invalid_Version
           | Some vb \<Rightarrow> Inr (semver_ge va vb)))"

text \<open>
  Modelled from the spec: \<open>increment(version, "minor")\<close> of the Semver Engine
  (\<open>semver.inc\<close>): parse, add one to minor, reset patch, print. An invalid argument gives
  \<open>null\<close>; the incremented number is printed without a range check.
\<close>

definition semver_inc_minor :: "string \<Rightarrow> string option" where
  "semver_inc_minor s =
     (case semver_parse s of
        None \<Rightarrow> None
      | Some v \<Rightarrow> Some (format_semver (v\<lparr>minor := minor v + 1, patch := 0\<rparr>)))"

text \<open>
  Modelled from the spec: \<open>satisfies(version, range)\<close> of the Semver Engine, on the three
  range forms the program builds: \<open>M.m.p\<close> (equality), \<open>~M.m.p\<close>
  (\<open>>=M.m.p <M.(m+1).0-0\<close>) and \<open>^M.m.p\<close> (\<open>>=M.m.p\<close> and below the next value of the
  leftmost non-zero component). An upper bound that is not a valid version makes the
  range invalid, and an invalid range or version gives false. A version without
  prerelease is below \<open>X-0\<close> exactly when it is below \<open>X\<close>. The empty range matches
  every version.
\<close>

definition tilde_upper :: "SemVer \<Rightarrow> SemVer" where
  "tilde_upper q = \<lparr>major = major q, minor = minor q + 1, patch = 0\<rparr>"

definition caret_upper :: "SemVer \<Rightarrow> SemVer" where
  "caret_upper q =
     (if major q \<noteq> 0 then \<lparr>major = major q + 1, minor = 0, patch = 0\<rparr>
      else if minor q \<noteq> 0 then \<lparr>major = 0, minor = minor q + 1, patch = 0\<rparr>
      else \<lparr>major = 0, minor = 0, patch = patch q + 1\<rparr>)"

definition in_bounds :: "SemVer \<Rightarrow> SemVer \<Rightarrow> SemVer \<Rightarrow> bool" where
  "in_bounds v lo hi = (valid_semver hi \<and> semver_ge v lo \<and> \<not> semver_ge v hi)"

definition semver_satisfies :: "string \<Rightarrow> string \<Rightarrow> bool" where
  "semver_satisfies version range_text =
     (case semver_parse version of
        None \<Rightarrow> False
      | Some v \<Rightarrow>
          (case range_text of
             [] \<Rightarrow> True
           | c # rest \<Rightarrow>
               (if c = CHR ''~'' then
                  (case semver_parse rest of None \<Rightarrow> False | Some q \<Rightarrow> in_bounds v q (tilde_upper q))
                else if c = CHR ''^'' then
                  (case semver_parse rest of None \<Rightarrow> False | Some q \<Rightarrow> in_bounds v q (caret_upper q))
                else
                  (case semver_parse range_text of None \<Rightarrow> False | Some q \<Rightarrow> semver_ge v q \<and> semver_ge q v))))"

section \<open>semverify\<close>

definition semverify :: "string option \<Rightarrow> string option" where
  "semverify version =
     (case version of
        None \<Rightarrow> None
      | Some s \<Rightarrow>
          (if s = [] then None
           else (case semver_coerce s of None \<Rightarrow> None | Some cooerced \<Rightarrow> Some (format_semver cooerced))))"

section \<open>Facts about decimal numerals\<close>

lemma below_ten: "n < 10 \<Longrightarrow> n \<in> {0, 1, 2, 3, 4, 5, 6, 7, 8, 9 :: nat}"
  by auto

lemma digit_val_digit_char: "n < 10 \<Longrightarrow> digit_val (digit_char n) = n"
  by (drule below_ten) (auto simp: digit_val_def digit_char_def)

lemma is_digit_digit_char: "is_digit (digit_char n)"
proof -
  have "n mod 10 < 10" by simp
  then have "n mod 10 \<in> {0, 1, 2, 3, 4, 5, 6, 7, 8, 9 :: nat}" by (rule below_ten)
  then show ?thesis by (auto simp: is_digit_def digit_char_def)
qed

lemma digit_char_zero: "n < 10 \<Longrightarrow> digit_char n = CHR ''0'' \<longleftrightarrow> n = 0"
  by (drule below_ten) (auto simp: digit_char_def)

lemma read_nat_snoc: "read_nat (xs @ [c]) = 10 * read_nat xs + digit_val c"
  by (simp add: read_nat_def)

lemma read_nat_show_nat: "read_nat (show_nat n) = n"
proof (induction n rule: show_nat.induct)
  case (1 n)
  show ?case
  proof (cases "n < 10")
    case True
    then show ?thesis
      by (subst show_nat.simps) (simp add: read_nat_def digit_val_digit_char)
  next
    case False
    then have "read_nat (show_nat (n div 10)) = n div 10" using 1 by simp
    with False show ?thesis
      by (subst show_nat.simps) (simp add: read_nat_snoc digit_val_digit_char)
  qed
qed

lemma show_nat_digits: "list_all is_digit (show_nat n)"
proof (induction n rule: show_nat.induct)
  case (1 n)
  then show ?case
    by (subst show_nat.simps) (simp add: is_digit_digit_char)
qed

lemma show_nat_not_Nil: "show_nat n \<noteq> []"
  by (subst show_nat.simps) simp

lemma show_nat_hd: "0 < n \<Longrightarrow> hd (show_nat n) \<noteq> CHR ''0''"
proof (induction n rule: show_nat.induct)
  case (1 n)
  show ?case
  proof (cases "n < 10")
    case True
    with 1(2) show ?thesis
      by (subst show_nat.simps) (simp add: digit_char_zero)
  next
    case False
    then have "hd (show_nat (n div 10)) \<noteq> CHR ''0''" using 1(1) by simp
    with False show ?thesis
      by (subst show_nat.simps) (simp add: show_nat_not_Nil)
  qed
qed

lemma show_nat_zero: "show_nat 0 = ''0''"
  by (subst show_nat.simps) (simp add: digit_char_def)

lemma show_nat_no_sep: "\<not> is_digit c \<Longrightarrow> c \<notin> set (show_nat n)"
  using show_nat_digits [of n] by (auto simp: list_all_iff)

lemma split_on_not_Nil: "split_on c s \<noteq> []"
  by (induction s) (auto split: list.splits)

lemma split_on_none: "c \<notin> set s \<Longrightarrow> split_on c s = [s]"
  by (induction s) auto

lemma split_on_first: "c \<notin> set a \<Longrightarrow> split_on c (a @ c # b) = a # split_on c b"
  by (induction a) auto

lemma numeric_identifier_show_nat: "numeric_identifier (show_nat n)"
proof (cases "show_nat n")
  case Nil
  then show ?thesis by (simp add: show_nat_not_Nil)
next
  case (Cons c cs)
  have d: "list_all is_digit (c # cs)" using show_nat_digits [of n] Cons by simp
  show ?thesis
  proof (cases "n = 0")
    case True
    then show ?thesis by (simp add: show_nat_zero numeric_identifier_def is_digit_def)
  next
    case False
    then have "hd (show_nat n) \<noteq> CHR ''0''" by (simp add: show_nat_hd)
    with Cons d show ?thesis by (simp add: numeric_identifier_def)
  qed
qed

lemma split_on_format:
  "split_on CHR ''.'' (format_semver v) = [show_nat (major v), show_nat (minor v), show_nat (patch v)]"
proof -
  have nd: "\<not> is_digit CHR ''.''" by (simp add: is_digit_def)
  have n: "\<And>k. CHR ''.'' \<notin> set (show_nat k)" using nd by (rule show_nat_no_sep)
  have "split_on CHR ''.'' (format_semver v) =
        show_nat (major v) # split_on CHR ''.'' (show_nat (minor v) @ CHR ''.'' # show_nat (patch v))"
    unfolding format_semver_def using split_on_first [OF n] by simp
  also have "split_on CHR ''.'' (show_nat (minor v) @ CHR ''.'' # show_nat (patch v)) =
        show_nat (minor v) # split_on CHR ''.'' (show_nat (patch v))"
    using split_on_first [OF n] by simp
  also have "split_on CHR ''.'' (show_nat (patch v)) = [show_nat (patch v)]"
    using split_on_none [OF n] by simp
  finally show ?thesis .
qed

lemma semver_parse_format:
  "semver_parse (format_semver v) = (if valid_semver v then Some v else None)"
  by (simp add: semver_parse_def split_on_format numeric_identifier_show_nat read_nat_show_nat
      valid_semver_def)

lemma semver_parse_valid: "semver_parse s = Some v \<Longrightarrow> valid_semver v"
  by (auto simp: semver_parse_def Let_def split: list.splits if_splits)

section \<open>The alias table and the user-agent resolver\<close>

text \<open>
  \<open>browserNameMap\<close>, in the order of the object literal (the order of \<open>Object.keys\<close>).
\<close>

definition browserNameMap :: "(string \<times> string) list" where
  "browserNameMap =
     [(''bb'', ''BlackBerry''),
      (''and_chr'', ''Chrome''),
      (''ChromeAndroid'', ''Chrome''),
      (''FirefoxAndroid'', ''Firefox''),
      (''ff'', ''Firefox''),
      (''ie_mob'', ''ExplorerMobile''),
      (''ie'', ''Explorer''),
      (''and_ff'', ''Firefox''),
      (''ios_saf'', ''iOS''),
      (''op_mini'', ''OperaMini''),
      (''op_mob'', ''OperaMobile''),
      (''and_qq'', ''QQAndroid''),
      (''and_uc'', ''UCAndroid'')]"

text \<open>
  What \<open>UAParser\<close> reports for a user-agent string; every field may be undefined. The
  parser itself is an external package: the resolver takes it as a parameter.
\<close>

record ParsedUA =
  browser_name :: "string option"
  browser_version :: "string option"
  os_name :: "string option"
  os_version :: "string option"
  engine_name :: "string option"
  engine_version :: "string option"
  device_type :: "string option"

record ResolvedAgent =
  family :: "string option"
  version :: "string option"

definition resolveUserAgent :: "(string \<Rightarrow> ParsedUA) \<Rightarrow> string \<Rightarrow> ResolvedAgent" where
  "resolveUserAgent parser uaString =
     (let parsedUA = parser uaString;
          parsedBrowserVersion = semverify (browser_version parsedUA);
          parsedOSVersion = semverify (os_version parsedUA);
          parsedEngineVersion = semverify (engine_version parsedUA)
      in
      if browser_name parsedUA = Some ''Safari'' \<and> os_name parsedUA = Some ''iOS'' then
        \<lparr>family = Some ''iOS'', version = parsedBrowserVersion\<rparr>
      else if os_name parsedUA = Some ''iOS'' then
        \<lparr>family = Some ''iOS'', version = parsedOSVersion\<rparr>
      else if (browser_name parsedUA = Some ''Opera'' \<and> device_type parsedUA = Some ''mobile'')
              \<or> browser_name parsedUA = Some ''Opera Mobi'' then
        \<lparr>family = Some ''OperaMobile'', version = parsedBrowserVersion\<rparr>
      else if browser_name parsedUA = Some ''Samsung Internet'' then
        \<lparr>family = Some ''Samsung'', version = parsedBrowserVersion\<rparr>
      else if browser_name parsedUA = Some ''IE'' then
        \<lparr>family = Some ''Explorer'', version = parsedBrowserVersion\<rparr>
      else if browser_name parsedUA = Some ''IEMobile'' then
        \<lparr>family = Some ''ExplorerMobile'', version = parsedBrowserVersion\<rparr>
      else if engine_name parsedUA = Some ''Gecko'' then
        \<lparr>family = Some ''Firefox'', version = parsedEngineVersion\<rparr>
      else if engine_name parsedUA = Some ''Blink'' then
        \<lparr>family = Some ''Chrome'', version = parsedEngineVersion\<rparr>
      else if (case browser_name parsedUA of
                 None \<Rightarrow> False
               | Some n \<Rightarrow> n \<noteq> [] \<and>
                   n \<in> set [''Chrome'', ''Chromium'', ''Chrome WebView'', ''Chrome Headless'']) then
        \<lparr>family = Some ''Chrome'', version = parsedBrowserVersion\<rparr>
      else if browser_name parsedUA = Some ''Android Browser'' then
        \<lparr>family = Some ''Android'', version = parsedOSVersion\<rparr>
      else
        \<lparr>family = (case browser_name parsedUA of
                      None \<Rightarrow> None
                    | Some n \<Rightarrow> if n = [] then None else Some n),
         version = parsedBrowserVersion\<rparr>)"

section \<open>generateSemversInRange\<close>

text \<open>
  The loop \<open>while (semver.gte(endSemver, curVersion)) { push; curVersion = inc }\<close>.
  \<open>curVersion\<close> is \<open>null\<close> when \<open>inc\<close> returned \<open>null\<close>, and \<open>gte\<close> throws on it. An
  array holds at most \<open>2^32 - 1\<close> elements: \<open>push\<close> on an array of that length throws a
  RangeError when it sets the new length. The loop is a total function: each turn raises
  the minor of \<open>curVersion\<close>, and \<open>gte\<close> throws once it is above the largest safe
  integer, so \<open>loop_measure\<close> decreases. The heap of an engine is not part of the
  language and is not modelled; where the model ends in an error after many turns, an
  engine may run out of memory before, and returns no list either.
\<close>

definition MAX_ARRAY_LENGTH :: nat where
  "MAX_ARRAY_LENGTH = 4294967295"

definition loop_measure :: "string option \<Rightarrow> nat" where
  "loop_measure c =
     (case c of
        None \<Rightarrow> 0
      | Some s \<Rightarrow> (case semver_parse s of None \<Rightarrow> 0 | Some v \<Rightarrow> MAX_SAFE_INTEGER + 2 - minor v))"

lemma loop_measure_step:
  assumes "semver_gte e cur = Inr b"
  shows "loop_measure (semver_inc_minor cur) < loop_measure (Some cur)"
proof -
  from assms obtain v where v: "semver_parse cur = Some v"
    by (auto simp: semver_gte_def split: option.splits)
  then have "minor v \<le> MAX_SAFE_INTEGER"
    using semver_parse_valid [OF v] by (simp add: valid_semver_def)
  then show ?thesis
    using v by (auto simp: loop_measure_def semver_inc_minor_def semver_parse_format)
qed

function range_loop :: "string \<Rightarrow> string option \<Rightarrow> string list \<Rightarrow> error + string list" where
  "range_loop endSemver curVersion versionsInRange =
     (case curVersion of
        None \<Rightarrow> Inl Invalid_Version
      | Some cur \<Rightarrow>
          (case semver_gte endSemver cur of
             Inl e \<Rightarrow> Inl e
           | Inr go_on \<Rightarrow>
               if go_on then
                 (if length versionsInRange < MAX_ARRAY_LENGTH
                  then range_loop endSemver (semver_inc_minor cur) (versionsInRange @ [cur])
                  else Inl Invalid_array_length)
               else Inr versionsInRange))"
  by pat_completeness auto
termination
  by (relation "measure (\<lambda>(e, c, acc). loop_measure c)") (auto simp: loop_measure_step)

declare range_loop.simps [simp del]

text \<open>\<open>!s\<close> for a \<open>string | null\<close>.\<close>

definition falsy :: "string option \<Rightarrow> bool" where
  "falsy s = (case s of None \<Rightarrow> True | Some t \<Rightarrow> t = [])"

definition generateSemversInRange :: "string \<Rightarrow> error + string list" where
  "generateSemversInRange versionRange =
     (let pieces = split_on CHR ''-'' versionRange;
          startSemver = semverify (piece pieces 0);
          endSemver = semverify (piece pieces 1)
      in
      if falsy startSemver \<or> falsy endSemver then Inr []
      else (case endSemver of
              None \<Rightarrow> Inr []
            | Some e \<Rightarrow> range_loop e startSemver []))"

section \<open>normalizeQuery\<close>

text \<open>
  \<open>query.match(new RegExp('(k1|k2|...)'))\<close>: the leftmost position at which a key matches,
  and there the first key of the alternation; the result is \<open>match[0]\<close>.
\<close>

fun regex_match :: "string list \<Rightarrow> string \<Rightarrow> string option" where
  "regex_match keys [] = find (\<lambda>k. prefix k []) keys"
| "regex_match keys (c # cs) =
     (case find (\<lambda>k. prefix k (c # cs)) keys of
        Some k \<Rightarrow> Some k
      | None \<Rightarrow> regex_match keys cs)"

text \<open>
  \<open>s.replace(pat, rep)\<close> with a string pattern: the first occurrence of \<open>pat\<close> is replaced.
  No canonical name contains \<open>$\<close>, so the replacement is literal.
\<close>

fun replace_first :: "string \<Rightarrow> string \<Rightarrow> string \<Rightarrow> string" where
  "replace_first pat rep [] = (if pat = [] then rep else [])"
| "replace_first pat rep (c # cs) =
     (if prefix pat (c # cs) then rep @ drop (length pat) (c # cs)
      else c # replace_first pat rep cs)"

text \<open>\<open>browserNameMap[k]\<close> as a replacement string: a missing key prints as \<open>undefined\<close>.\<close>

definition alias_text :: "string \<Rightarrow> string" where
  "alias_text k = (case map_of browserNameMap k of None \<Rightarrow> ''undefined'' | Some n \<Rightarrow> n)"

definition normalizeQuery :: "string \<Rightarrow> string" where
  "normalizeQuery query =
     (case regex_match (map fst browserNameMap) query of
        None \<Rightarrow> query
      | Some m \<Rightarrow> replace_first m (alias_text m) query)"

section \<open>parseBrowsersList\<close>

text \<open>
  \<open>name in browserNameMap\<close> also holds for the properties every object inherits from
  \<open>Object.prototype\<close>; \<open>browserNameMap[name]\<close> is then a function or an object, not a
  string. \<^term>\<open>Str\<close> is a string value, \<open>Inherited\<close> such an inherited value.
\<close>

datatype js_value = Str string | Inherited string

definition object_prototype_keys :: "string list" where
  "object_prototype_keys =
     [''constructor'', ''__defineGetter__'', ''__defineSetter__'', ''hasOwnProperty'',
      ''__lookupGetter__'', ''__lookupSetter__'', ''isPrototypeOf'', ''propertyIsEnumerable'',
      ''toString'', ''valueOf'', ''__proto__'', ''toLocaleString'']"

definition normalizedName :: "string \<Rightarrow> js_value" where
  "normalizedName n =
     (case map_of browserNameMap n of
        Some a \<Rightarrow> Str a
      | None \<Rightarrow> if n \<in> set object_prototype_keys then Inherited n else Str n)"

record QueryEntry =
  entry_family :: js_value
  entry_version :: string

text \<open>
  The first \<open>map\<close>: \<open>const [name, version] = browser.split(' ')\<close>. \<open>split\<close> returns at
  least one piece, so \<open>name\<close> is a string; \<open>version\<close> is undefined when there is no space.
\<close>

definition split_browser :: "string \<Rightarrow> string \<times> string option" where
  "split_browser browser = (let pieces = split_on CHR '' '' browser in (hd pieces, piece pieces 1))"


text \<open>
  The second \<open>map\<close>: \<open>browser.version.indexOf\<close> throws a TypeError on an undefined
  version. A range gives an array of entries and anything else one entry; \<open>flat()\<close>
  splices the arrays, so the single entry is a one-element list here.
\<close>

definition expand_browser :: "string \<times> string option \<Rightarrow> error + QueryEntry list" where
  "expand_browser b =
     (case snd b of
        None \<Rightarrow> Inl Undefined_indexOf
      | Some v \<Rightarrow>
          (if indexOf_pos CHR ''-'' v then
             (case generateSemversInRange v of
                Inl e \<Rightarrow> Inl e
              | Inr vs \<Rightarrow> Inr (map (\<lambda>ver. \<lparr>entry_family = normalizedName (fst b), entry_version = ver\<rparr>) vs))
           else Inr [\<lparr>entry_family = normalizedName (fst b), entry_version = v\<rparr>]))"

text \<open>\<open>Array.prototype.map\<close> with a callback that may throw: the first throw ends it.\<close>

fun map_result :: "('a \<Rightarrow> error + 'b) \<Rightarrow> 'a list \<Rightarrow> error + 'b list" where
  "map_result f [] = Inr []"
| "map_result f (x # xs) =
     (case f x of
        Inl e \<Rightarrow> Inl e
      | Inr y \<Rightarrow> (case map_result f xs of Inl e \<Rightarrow> Inl e | Inr ys \<Rightarrow> Inr (y # ys)))"

definition parseBrowsersList :: "string list \<Rightarrow> error + QueryEntry list" where
  "parseBrowsersList browsersList =
     (case map_result expand_browser
             (filter (\<lambda>b. snd b \<noteq> Some ''TP'') (map split_browser browsersList)) of
        Inl e \<Rightarrow> Inl e
      | Inr browsers \<Rightarrow> Inr (concat browsers))"

section \<open>compareBrowserSemvers and matchesUA\<close>

text \<open>
  An optional property of the options object is left out, present with the value
  \<open>undefined\<close>, or present with a value. The object spread of \<open>matchesUA\<close> tells the first
  two apart, so the three flags keep all three states. \<open>browsers\<close>, \<open>env\<close> and \<open>path\<close>
  are only read, and \<^term>\<open>None\<close> is what both a missing and an undefined property read as.
\<close>

datatype 'a property = Absent | Undefined | Given 'a

record Options =
  browsers :: "string list option"
  env :: "string option"
  path :: "string option"
  ignoreMinor :: "bool property"
  ignorePatch :: "bool property"
  allowHigherVersions :: "bool property"

definition truthy :: "bool property \<Rightarrow> bool" where
  "truthy b = (b = Given True)"

text \<open>
  The variable \<open>referenceVersion\<close> of \<open>compareBrowserSemvers\<close> after its two conditional
  assignments: the second overwrites the first.
\<close>

definition referenceVersion :: "Options \<Rightarrow> string \<Rightarrow> string" where
  "referenceVersion options semverifiedB =
     (let r = semverifiedB;
          r = (if truthy (ignorePatch options) then CHR ''~'' # semverifiedB else r);
          r = (if truthy (ignoreMinor options) then CHR ''^'' # semverifiedB else r)
      in r)"

definition compareBrowserSemvers :: "string \<Rightarrow> string \<Rightarrow> Options \<Rightarrow> error + bool" where
  "compareBrowserSemvers versionA versionB options =
     (let semverifiedA = semverify (Some versionA);
          semverifiedB = semverify (Some versionB)
      in
      if falsy semverifiedA \<or> falsy semverifiedB then Inr False
      else (case (semverifiedA, semverifiedB) of
              (Some a, Some b) \<Rightarrow>
                (if truthy (allowHigherVersions options) then semver_gte a b
                 else Inr (semver_satisfies a (referenceVersion options b)))
            | _ \<Rightarrow> Inr False))"

text \<open>An options object that sets only the three comparison flags.\<close>

definition flags :: "bool property \<Rightarrow> bool property \<Rightarrow> bool property \<Rightarrow> Options" where
  "flags im ip ah =
     \<lparr>browsers = None, env = None, path = None,
      ignoreMinor = im, ignorePatch = ip, allowHigherVersions = ah\<rparr>"

text \<open>
  The callback of \<open>parsedBrowsers.some\<close>. \<open>toLowerCase\<close> and \<open>toLocaleLowerCase\<close> are the
  same function on ASCII; on an inherited value \<open>browser.family.toLowerCase\<close> is not a
  function and the call throws.
\<close>

definition browser_matches :: "ResolvedAgent \<Rightarrow> Options \<Rightarrow> QueryEntry \<Rightarrow> error + bool" where
  "browser_matches resolvedUserAgent options browser =
     (if falsy (family resolvedUserAgent) then Inr False
      else if falsy (version resolvedUserAgent) then Inr False
      else if entry_version browser = [] then Inr False
      else (case (entry_family browser, family resolvedUserAgent, version resolvedUserAgent) of
              (Str f, Some uf, Some uv) \<Rightarrow>
                (if toLowerCase f = toLowerCase uf
                 then compareBrowserSemvers uv (entry_version browser) options
                 else Inr False)
            | (Inherited f, Some uf, Some uv) \<Rightarrow> Inl Not_a_function
            | _ \<Rightarrow> Inr False))"

text \<open>\<open>Array.prototype.some\<close>: stops at the first true, and at the first throw.\<close>

fun some_result :: "('a \<Rightarrow> error + bool) \<Rightarrow> 'a list \<Rightarrow> error + bool" where
  "some_result f [] = Inr False"
| "some_result f (x # xs) =
     (case f x of
        Inl e \<Rightarrow> Inl e
      | Inr b \<Rightarrow> if b then Inr True else some_result f xs)"

text \<open>
  \<open>matchesUA\<close>. The support-policy resolver \<open>browserslist\<close> (queries, \<open>env\<close>, \<open>path\<close>) is an
  external package that may throw, \<open>process.cwd()\<close> is the environment's and the
  user-agent parser is external too: all three are parameters. In
  \<open>{ignoreMinor: false, ignorePatch: true, ...opts}\<close> a property of \<open>opts\<close> overwrites the
  default whenever it is present, also with the value \<open>undefined\<close>.
\<close>

definition matchesUA ::
  "(string list option \<Rightarrow> string option \<Rightarrow> string \<Rightarrow> error + string list) \<Rightarrow> string \<Rightarrow>
   (string \<Rightarrow> ParsedUA) \<Rightarrow> string \<Rightarrow> Options \<Rightarrow> error + bool" where
  "matchesUA browserslist cwd parser uaString opts =
     (if uaString = [] then Inr False
      else
        (let normalizedQuery = map_option (map normalizeQuery) (browsers opts) in
         case browserslist normalizedQuery (env opts)
                (case path opts of None \<Rightarrow> cwd | Some p \<Rightarrow> if p = [] then cwd else p) of
           Inl e \<Rightarrow> Inl e
         | Inr bs \<Rightarrow>
             (case parseBrowsersList bs of
                Inl e \<Rightarrow> Inl e
              | Inr parsedBrowsers \<Rightarrow>
                  (let resolvedUserAgent = resolveUserAgent parser uaString;
                       options = opts
                         \<lparr>ignoreMinor :=
                            (case ignoreMinor opts of
                               Absent \<Rightarrow> Given False | Undefined \<Rightarrow> Undefined | Given b \<Rightarrow> Given b),
                          ignorePatch :=
                            (case ignorePatch opts of
                               Absent \<Rightarrow> Given True | Undefined \<Rightarrow> Undefined | Given b \<Rightarrow> Given b)\<rparr>
                   in some_result (browser_matches resolvedUserAgent options) parsedBrowsers))))"

section \<open>Facts about coercion\<close>

lemma semver_coerce_valid: "semver_coerce a = Some v \<Longrightarrow> valid_semver v"
  by (auto simp: semver_coerce_def Let_def split: option.splits if_splits prod.splits)

lemma semverify_Some:
  "semverify x = Some t \<Longrightarrow> \<exists>a v. x = Some a \<and> a \<noteq> [] \<and> semver_coerce a = Some v \<and> t = format_semver v"
  by (auto simp: semverify_def split: option.splits if_splits)

lemma semverify_parse:
  "semverify x = Some t \<Longrightarrow> \<exists>v. semver_parse t = Some v \<and> t = format_semver v"
  using semverify_Some [of x t] semver_coerce_valid by (auto simp: semver_parse_format)

lemma takeWhile_run:
  assumes "list_all is_digit a" "r = [] \<or> \<not> is_digit (hd r)"
  shows "takeWhile is_digit (a @ r) = a" and "dropWhile is_digit (a @ r) = r"
proof -
  have r: "takeWhile is_digit r = []" "dropWhile is_digit r = r"
    using assms(2) by (cases r; simp)+
  from assms(1) have "\<forall>x\<in>set a. is_digit x" by (simp add: list_all_iff)
  then show "takeWhile is_digit (a @ r) = a" "dropWhile is_digit (a @ r) = r"
    using r by simp_all
qed

lemma coerce_match_run:
  assumes "list_all is_digit a" "a \<noteq> []" "length a \<le> MAX_SAFE_COMPONENT_LENGTH"
    "r = [] \<or> \<not> is_digit (hd r)"
  shows "coerce_match (a @ r) = Some (a, coerce_groups r)"
  using assms takeWhile_run [OF assms(1) assms(4)]
  by (subst coerce_match.simps) (simp add: Let_def)

lemma coerce_group_run:
  assumes "list_all is_digit b" "b \<noteq> []" "length b \<le> MAX_SAFE_COMPONENT_LENGTH"
    "r = [] \<or> \<not> is_digit (hd r)"
  shows "coerce_group (CHR ''.'' # b @ r) = Some (b, r)"
  using assms takeWhile_run [OF assms(1) assms(4)]
  by (cases b) (simp_all add: coerce_group_def Let_def)

lemma read_nat_zero: "read_nat ''0'' = 0"
  by (simp add: read_nat_def digit_val_def)

lemma semverify_major_only:
  assumes "list_all is_digit a" "a \<noteq> []" "length a \<le> MAX_SAFE_COMPONENT_LENGTH"
    "read_nat a \<le> MAX_SAFE_INTEGER"
  shows "semverify (Some a) = Some (show_nat (read_nat a) @ ''.0.0'')"
proof -
  have "coerce_match (a @ []) = Some (a, coerce_groups [])"
    using assms by (intro coerce_match_run) simp_all
  then have "coerce_match a = Some (a, None, None)"
    by (simp add: coerce_groups_def coerce_group_def)
  then show ?thesis
    using assms by (simp add: semverify_def semver_coerce_def or_zero_def read_nat_zero
        valid_semver_def format_semver_def show_nat_zero)
qed

lemma semverify_major_minor:
  assumes "list_all is_digit a" "a \<noteq> []" "length a \<le> MAX_SAFE_COMPONENT_LENGTH"
    "read_nat a \<le> MAX_SAFE_INTEGER"
    "list_all is_digit b" "b \<noteq> []" "length b \<le> MAX_SAFE_COMPONENT_LENGTH"
    "read_nat b \<le> MAX_SAFE_INTEGER"
  shows "semverify (Some (a @ ''.'' @ b)) = Some (show_nat (read_nat a) @ ''.'' @ show_nat (read_nat b) @ ''.0'')"
proof -
  have nd: "\<not> is_digit CHR ''.''" by (simp add: is_digit_def)
  have "coerce_match (a @ (CHR ''.'' # b)) = Some (a, coerce_groups (CHR ''.'' # b))"
    using assms nd by (intro coerce_match_run) simp_all
  moreover have "coerce_group (CHR ''.'' # b @ []) = Some (b, [])"
    using assms by (intro coerce_group_run) simp_all
  ultimately have "coerce_match (a @ ''.'' @ b) = Some (a, Some b, None)"
    by (simp add: coerce_groups_def) (simp add: coerce_group_def)
  then show ?thesis
    using assms by (simp add: semverify_def semver_coerce_def or_zero_def read_nat_zero
        valid_semver_def format_semver_def show_nat_zero)
qed

section \<open>Facts about the expansion loop\<close>

lemma SemVer_update:
  "v\<lparr>minor := a, patch := b\<rparr> = \<lparr>major = major v, minor = a, patch = b\<rparr>"
  by (cases v) simp

lemma range_loop_step:
  assumes "valid_semver e"
  shows "range_loop (format_semver e) (Some (format_semver c)) acc =
     (if valid_semver c then
        (if semver_ge e c then
           (if length acc < MAX_ARRAY_LENGTH
            then range_loop (format_semver e)
                   (Some (format_semver \<lparr>major = major c, minor = minor c + 1, patch = 0\<rparr>))
                   (acc @ [format_semver c])
            else Inl Invalid_array_length)
         else Inr acc)
      else Inl Invalid_Version)"
  using assms
  by (subst range_loop.simps)
     (simp add: semver_gte_def semver_parse_format semver_inc_minor_def SemVer_update)

text \<open>From \<open>major.k.0\<close> with the end in the same major and its minor a safe integer below the largest.\<close>

lemma range_loop_same_major:
  assumes "valid_semver e" "k \<le> minor e + 1" "minor e < MAX_SAFE_INTEGER"
    "length acc \<le> MAX_ARRAY_LENGTH"
  shows "range_loop (format_semver e) (Some (format_semver \<lparr>major = major e, minor = k, patch = 0\<rparr>)) acc =
     (if MAX_ARRAY_LENGTH < length acc + (minor e + 1 - k) then Inl Invalid_array_length
      else Inr (acc @ map (\<lambda>j. format_semver \<lparr>major = major e, minor = j, patch = 0\<rparr>) [k ..< minor e + 1]))"
  using assms
proof (induction "minor e + 1 - k" arbitrary: k acc)
  case 0
  then have k: "k = minor e + 1" by simp
  have v: "valid_semver \<lparr>major = major e, minor = k, patch = 0\<rparr>"
    using 0 k by (simp add: valid_semver_def)
  have g: "\<not> semver_ge e \<lparr>major = major e, minor = k, patch = 0\<rparr>"
    using k by (simp add: semver_ge_def)
  show ?case
    using v g k 0 by (subst range_loop_step) simp_all
next
  case (Suc n)
  then have k: "k \<le> minor e" by simp
  have v: "valid_semver \<lparr>major = major e, minor = k, patch = 0\<rparr>"
    using Suc k by (simp add: valid_semver_def)
  have g: "semver_ge e \<lparr>major = major e, minor = k, patch = 0\<rparr>"
    using k by (auto simp: semver_ge_def)
  have n: "n = minor e + 1 - (k + 1)" using Suc by simp
  have u: "[k ..< minor e + 1] = k # [k + 1 ..< minor e + 1]"
    using k by (simp add: upt_conv_Cons)
  show ?case
  proof (cases "length acc < MAX_ARRAY_LENGTH")
    case True
    then have l: "length (acc @ [format_semver \<lparr>major = major e, minor = k, patch = 0\<rparr>]) \<le> MAX_ARRAY_LENGTH"
      by simp
    have ih: "range_loop (format_semver e) (Some (format_semver \<lparr>major = major e, minor = k + 1, patch = 0\<rparr>))
          (acc @ [format_semver \<lparr>major = major e, minor = k, patch = 0\<rparr>]) =
       (if MAX_ARRAY_LENGTH < length (acc @ [format_semver \<lparr>major = major e, minor = k, patch = 0\<rparr>]) + (minor e + 1 - (k + 1))
        then Inl Invalid_array_length
        else Inr ((acc @ [format_semver \<lparr>major = major e, minor = k, patch = 0\<rparr>]) @
                  map (\<lambda>j. format_semver \<lparr>major = major e, minor = j, patch = 0\<rparr>) [k + 1 ..< minor e + 1]))"
      using Suc.hyps(1) [OF n _ _ _ l] Suc.prems k by simp
    have c: "(MAX_ARRAY_LENGTH < length (acc @ [format_semver \<lparr>major = major e, minor = k, patch = 0\<rparr>]) + (minor e + 1 - (k + 1)))
        = (MAX_ARRAY_LENGTH < length acc + (minor e + 1 - k))"
      using k by auto
    have "range_loop (format_semver e) (Some (format_semver \<lparr>major = major e, minor = k, patch = 0\<rparr>)) acc =
       range_loop (format_semver e) (Some (format_semver \<lparr>major = major e, minor = k + 1, patch = 0\<rparr>))
          (acc @ [format_semver \<lparr>major = major e, minor = k, patch = 0\<rparr>])"
      using v g True Suc.prems(1) by (subst range_loop_step) simp_all
    then show ?thesis unfolding ih c u by simp
  next
    case False
    then have "MAX_ARRAY_LENGTH < length acc + (minor e + 1 - k)" using k by simp
    moreover have "range_loop (format_semver e) (Some (format_semver \<lparr>major = major e, minor = k, patch = 0\<rparr>)) acc =
       Inl Invalid_array_length"
      using v g False Suc.prems(1) by (subst range_loop_step) simp_all
    ultimately show ?thesis by simp
  qed
qed

text \<open>From \<open>M.k.0\<close> when no increment of minor takes the version above the end.\<close>

lemma range_loop_no_exit:
  assumes "valid_semver e" "M < major e \<or> (M = major e \<and> minor e = MAX_SAFE_INTEGER)"
    "k \<le> MAX_SAFE_INTEGER + 1" "length acc \<le> MAX_ARRAY_LENGTH"
  shows "range_loop (format_semver e) (Some (format_semver \<lparr>major = M, minor = k, patch = 0\<rparr>)) acc =
     Inl (if MAX_ARRAY_LENGTH < length acc + (MAX_SAFE_INTEGER + 1 - k) then Invalid_array_length
          else Invalid_Version)"
  using assms
proof (induction "MAX_SAFE_INTEGER + 1 - k" arbitrary: k acc)
  case 0
  then have "\<not> valid_semver \<lparr>major = M, minor = k, patch = 0\<rparr>" by (simp add: valid_semver_def)
  then show ?case using 0 by (subst range_loop_step) simp_all
next
  case (Suc n)
  then have k: "k \<le> MAX_SAFE_INTEGER" by simp
  have M: "M \<le> MAX_SAFE_INTEGER" using Suc.prems by (auto simp: valid_semver_def)
  have v: "valid_semver \<lparr>major = M, minor = k, patch = 0\<rparr>"
    using k M by (simp add: valid_semver_def)
  have g: "semver_ge e \<lparr>major = M, minor = k, patch = 0\<rparr>"
    using Suc.prems k by (auto simp: semver_ge_def)
  have n: "n = MAX_SAFE_INTEGER + 1 - (k + 1)" using Suc by simp
  show ?case
  proof (cases "length acc < MAX_ARRAY_LENGTH")
    case True
    then have l: "length (acc @ [format_semver \<lparr>major = M, minor = k, patch = 0\<rparr>]) \<le> MAX_ARRAY_LENGTH"
      by simp
    have ih: "range_loop (format_semver e) (Some (format_semver \<lparr>major = M, minor = k + 1, patch = 0\<rparr>))
          (acc @ [format_semver \<lparr>major = M, minor = k, patch = 0\<rparr>]) =
       Inl (if MAX_ARRAY_LENGTH < length (acc @ [format_semver \<lparr>major = M, minor = k, patch = 0\<rparr>]) + (MAX_SAFE_INTEGER + 1 - (k + 1))
            then Invalid_array_length else Invalid_Version)"
      using Suc.hyps(1) [OF n _ _ _ l] Suc.prems k by simp
    have c: "(MAX_ARRAY_LENGTH < length (acc @ [format_semver \<lparr>major = M, minor = k, patch = 0\<rparr>]) + (MAX_SAFE_INTEGER + 1 - (k + 1)))
        = (MAX_ARRAY_LENGTH < length acc + (MAX_SAFE_INTEGER + 1 - k))"
      using k by auto
    have "range_loop (format_semver e) (Some (format_semver \<lparr>major = M, minor = k, patch = 0\<rparr>)) acc =
       range_loop (format_semver e) (Some (format_semver \<lparr>major = M, minor = k + 1, patch = 0\<rparr>))
          (acc @ [format_semver \<lparr>major = M, minor = k, patch = 0\<rparr>])"
      using v g True Suc.prems(1) by (subst range_loop_step) simp_all
    then show ?thesis unfolding ih c by simp
  next
    case False
    then have "MAX_ARRAY_LENGTH < length acc + (MAX_SAFE_INTEGER + 1 - k)" using k by simp
    moreover have "range_loop (format_semver e) (Some (format_semver \<lparr>major = M, minor = k, patch = 0\<rparr>)) acc =
       Inl Invalid_array_length"
      using v g False Suc.prems(1) by (subst range_loop_step) simp_all
    ultimately show ?thesis by simp
  qed
qed

lemma generateSemversInRange_loop:
  assumes "semverify (piece (split_on CHR ''-'' r) 0) = Some s'"
    "semverify (piece (split_on CHR ''-'' r) 1) = Some e'"
    "semver_parse s' = Some s" "semver_parse e' = Some e"
  shows "generateSemversInRange r = range_loop (format_semver e) (Some (format_semver s)) []"
    and "s' = format_semver s" and "e' = format_semver e" and "valid_semver s" and "valid_semver e"
proof -
  from semverify_parse [OF assms(1)] assms(3) show s: "s' = format_semver s" by auto
  from semverify_parse [OF assms(2)] assms(4) show e: "e' = format_semver e" by auto
  show "valid_semver s" "valid_semver e"
    using assms(3,4) by (auto dest: semver_parse_valid)
  have "s' \<noteq> []" "e' \<noteq> []" using s e by (auto simp: format_semver_def show_nat_not_Nil)
  then show "generateSemversInRange r = range_loop (format_semver e) (Some (format_semver s)) []"
    using assms(1,2) s e by (simp add: generateSemversInRange_def Let_def falsy_def)
qed

lemma range_loop_from_start:
  assumes "valid_semver s" "valid_semver e"
  shows "range_loop (format_semver e) (Some (format_semver s)) [] =
     (if \<not> semver_ge e s then Inr []
      else if major s = major e \<and> minor e < MAX_SAFE_INTEGER then
        (if MAX_ARRAY_LENGTH \<le> minor e - minor s then Inl Invalid_array_length
         else Inr (format_semver s #
                   map (\<lambda>k. format_semver \<lparr>major = major s, minor = k, patch = 0\<rparr>)
                     [minor s + 1 ..< minor e + 1]))
      else Inl (if MAX_ARRAY_LENGTH \<le> MAX_SAFE_INTEGER - minor s then Invalid_array_length
                else Invalid_Version))"
proof (cases "semver_ge e s")
  case False
  then show ?thesis using assms by (subst range_loop_step) simp_all
next
  case True
  have step: "range_loop (format_semver e) (Some (format_semver s)) [] =
      range_loop (format_semver e)
        (Some (format_semver \<lparr>major = major s, minor = minor s + 1, patch = 0\<rparr>)) [format_semver s]"
    using assms True by (subst range_loop_step) (simp_all add: MAX_ARRAY_LENGTH_def)
  have l: "length [format_semver s] \<le> MAX_ARRAY_LENGTH" by (simp add: MAX_ARRAY_LENGTH_def)
  show ?thesis
  proof (cases "major s = major e \<and> minor e < MAX_SAFE_INTEGER")
    case same: True
    then have m: "minor s \<le> minor e" using True by (auto simp: semver_ge_def)
    have "range_loop (format_semver e)
        (Some (format_semver \<lparr>major = major e, minor = minor s + 1, patch = 0\<rparr>)) [format_semver s] =
       (if MAX_ARRAY_LENGTH < length [format_semver s] + (minor e + 1 - (minor s + 1))
        then Inl Invalid_array_length
        else Inr ([format_semver s] @
                  map (\<lambda>j. format_semver \<lparr>major = major e, minor = j, patch = 0\<rparr>)
                    [minor s + 1 ..< minor e + 1]))"
      using assms(2) m same l by (intro range_loop_same_major) simp_all
    moreover have "(MAX_ARRAY_LENGTH < length [format_semver s] + (minor e + 1 - (minor s + 1)))
        = (MAX_ARRAY_LENGTH \<le> minor e - minor s)"
      using m by auto
    ultimately show ?thesis using step same True by simp
  next
    case other: False
    then have c: "major s < major e \<or> (major s = major e \<and> minor e = MAX_SAFE_INTEGER)"
      using True assms by (auto simp: semver_ge_def valid_semver_def)
    have ms: "minor s \<le> MAX_SAFE_INTEGER" using assms by (simp add: valid_semver_def)
    then have k: "minor s + 1 \<le> MAX_SAFE_INTEGER + 1" by simp
    have "range_loop (format_semver e)
        (Some (format_semver \<lparr>major = major s, minor = minor s + 1, patch = 0\<rparr>)) [format_semver s] =
       Inl (if MAX_ARRAY_LENGTH < length [format_semver s] + (MAX_SAFE_INTEGER + 1 - (minor s + 1))
            then Invalid_array_length else Invalid_Version)"
      using assms(2) c k l by (intro range_loop_no_exit) simp_all
    moreover have "(MAX_ARRAY_LENGTH < length [format_semver s] + (MAX_SAFE_INTEGER + 1 - (minor s + 1)))
        = (MAX_ARRAY_LENGTH \<le> MAX_SAFE_INTEGER - minor s)"
      using ms by auto
    ultimately show ?thesis using step other True by simp
  qed
qed

lemma generateSemversInRange_cases:
  assumes "semverify (piece (split_on CHR ''-'' r) 0) = Some s'"
    "semverify (piece (split_on CHR ''-'' r) 1) = Some e'"
    "semver_parse s' = Some s" "semver_parse e' = Some e"
  shows "generateSemversInRange r =
     (if \<not> semver_ge e s then Inr []
      else if major s = major e \<and> minor e < MAX_SAFE_INTEGER then
        (if MAX_ARRAY_LENGTH \<le> minor e - minor s then Inl Invalid_array_length
         else Inr (s' #
                   map (\<lambda>k. format_semver \<lparr>major = major s, minor = k, patch = 0\<rparr>)
                     [minor s + 1 ..< minor e + 1]))
      else Inl (if MAX_ARRAY_LENGTH \<le> MAX_SAFE_INTEGER - minor s then Invalid_array_length
                else Invalid_Version))"
proof -
  note l = generateSemversInRange_loop [OF assms]
  show ?thesis
    unfolding l(1) l(2) by (rule range_loop_from_start [OF l(4) l(5)])
qed

section \<open>Evaluation on literals\<close>

lemmas coerce_eval =
  Let_def semverify_def semver_coerce_def coerce_match.simps coerce_groups_def coerce_group_def
  is_digit_def MAX_SAFE_COMPONENT_LENGTH_def or_zero_def read_nat_def digit_val_def
  valid_semver_def MAX_SAFE_INTEGER_def format_semver_def show_nat.simps digit_char_def

lemmas engine_eval =
  semver_parse_def numeric_identifier_def semver_gte_def semver_ge_def semver_inc_minor_def
  semver_satisfies_def tilde_upper_def caret_upper_def in_bounds_def piece_def falsy_def MAX_ARRAY_LENGTH_def

section \<open>The resolver's first two rules\<close>

text \<open>
  C2. The decision list of \<open>resolveUserAgent\<close> is first-match-wins. A parsed user agent
  with browser name Safari and OS name iOS resolves to family iOS with the normalized
  browser version; one with OS name iOS and any other browser name (or none) resolves
  to family iOS with the normalized OS version.
\<close>

theorem resolveUserAgent_iOS:
  "(browser_name (parser ua) = Some ''Safari'' \<and> os_name (parser ua) = Some ''iOS'' \<longrightarrow>
      resolveUserAgent parser ua =
        \<lparr>family = Some ''iOS'', version = semverify (browser_version (parser ua))\<rparr>)
   \<and> (os_name (parser ua) = Some ''iOS'' \<and> browser_name (parser ua) \<noteq> Some ''Safari'' \<longrightarrow>
      resolveUserAgent parser ua =
        \<lparr>family = Some ''iOS'', version = semverify (os_version (parser ua))\<rparr>)"
  by (simp add: resolveUserAgent_def Let_def)

theorem resolveUserAgent_iOS_witness:
  "resolveUserAgent
     (\<lambda>u. \<lparr>browser_name = Some ''Safari'', browser_version = Some ''13.0.5'',
            os_name = Some ''iOS'', os_version = Some ''13.3.1'',
            engine_name = Some ''WebKit'', engine_version = Some ''605.1.15'',
            device_type = Some ''mobile''\<rparr>) ''ua''
     = \<lparr>family = Some ''iOS'', version = Some ''13.0.5''\<rparr>
   \<and> resolveUserAgent
     (\<lambda>u. \<lparr>browser_name = Some ''Chrome'', browser_version = Some ''80.0.3987.95'',
            os_name = Some ''iOS'', os_version = Some ''13.3.1'',
            engine_name = Some ''WebKit'', engine_version = Some ''605.1.15'',
            device_type = Some ''mobile''\<rparr>) ''ua''
     = \<lparr>family = Some ''iOS'', version = Some ''13.3.1''\<rparr>"
  using
    resolveUserAgent_iOS [of
      "\<lambda>u. \<lparr>browser_name = Some ''Safari'', browser_version = Some ''13.0.5'',
            os_name = Some ''iOS'', os_version = Some ''13.3.1'',
            engine_name = Some ''WebKit'', engine_version = Some ''605.1.15'',
            device_type = Some ''mobile''\<rparr>" "''ua''"]
    resolveUserAgent_iOS [of
      "\<lambda>u. \<lparr>browser_name = Some ''Chrome'', browser_version = Some ''80.0.3987.95'',
            os_name = Some ''iOS'', os_version = Some ''13.3.1'',
            engine_name = Some ''WebKit'', engine_version = Some ''605.1.15'',
            device_type = Some ''mobile''\<rparr>" "''ua''"]
  by (simp add: coerce_eval)

section \<open>semverify: null or a canonical version\<close>

text \<open>
  C6. \<open>semverify\<close> (the spec's \<open>normalize\<close>) returns null for null or undefined input,
  for the empty string and for every token that \<open>coerce\<close> cannot coerce; its result type
  has no error value, so failure is always the null return. For a coercible token it
  returns \<open>major.minor.patch\<close> printed from the coerced numbers, a string that the strict
  parser reads back as the same version; a token that is a single number gets minor and
  patch 0, a token \<open>major.minor\<close> gets patch 0. In particular \<open>10\<close> gives \<open>10.0.0\<close> and
  \<open>2.5\<close> gives \<open>2.5.0\<close>.
\<close>

theorem semverify_null_or_canonical:
  "semverify None = None
   \<and> semverify (Some []) = None
   \<and> (semver_coerce s = None \<longrightarrow> semverify (Some s) = None)
   \<and> (t \<noteq> [] \<and> semver_coerce t = Some v \<longrightarrow>
        semverify (Some t) =
          Some (show_nat (major v) @ ''.'' @ show_nat (minor v) @ ''.'' @ show_nat (patch v))
        \<and> semver_parse (show_nat (major v) @ ''.'' @ show_nat (minor v) @ ''.'' @ show_nat (patch v))
            = Some v)
   \<and> (list_all is_digit a \<and> a \<noteq> [] \<and> length a \<le> 16 \<and> read_nat a \<le> MAX_SAFE_INTEGER \<longrightarrow>
        semverify (Some a) = Some (show_nat (read_nat a) @ ''.0.0''))
   \<and> (list_all is_digit b \<and> b \<noteq> [] \<and> length b \<le> 16 \<and> read_nat b \<le> MAX_SAFE_INTEGER
        \<and> list_all is_digit c \<and> c \<noteq> [] \<and> length c \<le> 16 \<and> read_nat c \<le> MAX_SAFE_INTEGER \<longrightarrow>
        semverify (Some (b @ ''.'' @ c)) =
          Some (show_nat (read_nat b) @ ''.'' @ show_nat (read_nat c) @ ''.0''))
   \<and> semverify (Some ''10'') = Some ''10.0.0''
   \<and> semverify (Some ''2.5'') = Some ''2.5.0''"
proof -
  have n: "semverify None = None" "semverify (Some []) = None"
    by (simp_all add: semverify_def)
  have f: "semver_coerce s = None \<longrightarrow> semverify (Some s) = None"
    by (simp add: semverify_def)
  have g: "t \<noteq> [] \<and> semver_coerce t = Some v \<longrightarrow>
        semverify (Some t) =
          Some (show_nat (major v) @ ''.'' @ show_nat (minor v) @ ''.'' @ show_nat (patch v))
        \<and> semver_parse (show_nat (major v) @ ''.'' @ show_nat (minor v) @ ''.'' @ show_nat (patch v))
            = Some v"
    using semver_parse_format [of v] semver_coerce_valid [of t v]
    by (simp add: semverify_def format_semver_def)
  have h1: "list_all is_digit a \<and> a \<noteq> [] \<and> length a \<le> 16 \<and> read_nat a \<le> MAX_SAFE_INTEGER \<longrightarrow>
        semverify (Some a) = Some (show_nat (read_nat a) @ ''.0.0'')"
    using semverify_major_only [of a] by (simp add: MAX_SAFE_COMPONENT_LENGTH_def)
  have h2: "list_all is_digit b \<and> b \<noteq> [] \<and> length b \<le> 16 \<and> read_nat b \<le> MAX_SAFE_INTEGER
        \<and> list_all is_digit c \<and> c \<noteq> [] \<and> length c \<le> 16 \<and> read_nat c \<le> MAX_SAFE_INTEGER \<longrightarrow>
        semverify (Some (b @ ''.'' @ c)) =
          Some (show_nat (read_nat b) @ ''.'' @ show_nat (read_nat c) @ ''.0'')"
    using semverify_major_minor [of b c] by (simp add: MAX_SAFE_COMPONENT_LENGTH_def)
  have e1: "semverify (Some ''10'') = Some ''10.0.0''" by (simp add: coerce_eval)
  have e2: "semverify (Some ''2.5'') = Some ''2.5.0''" by (simp add: coerce_eval)
  from n f g h1 h2 e1 e2 show ?thesis by blast
qed

theorem semverify_null_or_canonical_witness:
  "semverify (Some ''garbage'') = None
   \<and> semverify (Some ''v1.02.3.4'') = Some ''1.2.3''
   \<and> semver_parse ''1.2.3'' = Some \<lparr>major = 1, minor = 2, patch = 3\<rparr>
   \<and> semverify (Some ''007'') = Some ''7.0.0''
   \<and> semverify (Some ''12.34'') = Some ''12.34.0''"
  using semverify_null_or_canonical
    [where s = "''garbage''" and t = "''v1.02.3.4''" and v = "\<lparr>major = 1, minor = 2, patch = 3\<rparr>"
       and a = "''007''" and b = "''12''" and c = "''34''"]
  by (simp add: coerce_eval)

section \<open>compareBrowserSemvers: the reference range\<close>

lemma compareBrowserSemvers_normalized:
  assumes "semverify (Some a) = Some a'" "semverify (Some q) = Some q'"
  shows "compareBrowserSemvers a q options =
           (if truthy (allowHigherVersions options) then semver_gte a' q'
            else Inr (semver_satisfies a' (referenceVersion options q')))"
proof -
  from assms have "a' \<noteq> []" "q' \<noteq> []"
    using semverify_parse [of "Some a" a'] semverify_parse [of "Some q" q']
    by (auto simp: format_semver_def show_nat_not_Nil)
  with assms show ?thesis
    by (simp add: compareBrowserSemvers_def falsy_def)
qed

text \<open>
  C1, as the code has it. For version strings \<open>a\<close> and \<open>q\<close> that both normalize, and
  options with \<open>allowHigherVersions\<close> unset, \<open>compareBrowserSemvers\<close> tests normalized
  \<open>a\<close> against a range built from normalized \<open>q\<close>: \<open>^q\<close> when \<open>ignoreMinor\<close> is set,
  else \<open>~q\<close> when \<open>ignorePatch\<close> is set, else exactly \<open>q\<close>. The two flags are tested in
  the order \<open>ignorePatch\<close>, \<open>ignoreMinor\<close> and the later assignment overwrites the
  earlier, so with both set the caret range wins. With only \<open>ignorePatch\<close> set,
  \<open>10.2.1\<close> matches \<open>10.2.0\<close> and \<open>10.3.0\<close> does not.
\<close>

theorem compareBrowserSemvers_reference_range:
  "(semverify (Some a) = Some a' \<and> semverify (Some q) = Some q'
      \<and> \<not> truthy (allowHigherVersions options) \<longrightarrow>
     compareBrowserSemvers a q options =
       Inr (semver_satisfies a'
              (if truthy (ignoreMinor options) then CHR ''^'' # q'
               else if truthy (ignorePatch options) then CHR ''~'' # q'
               else q')))
   \<and> compareBrowserSemvers ''10.2.1'' ''10.2.0'' (flags Absent (Given True) Absent) = Inr True
   \<and> compareBrowserSemvers ''10.3.0'' ''10.2.0'' (flags Absent (Given True) Absent) = Inr False"
proof -
  have g: "semverify (Some a) = Some a' \<and> semverify (Some q) = Some q'
      \<and> \<not> truthy (allowHigherVersions options) \<longrightarrow>
     compareBrowserSemvers a q options =
       Inr (semver_satisfies a'
              (if truthy (ignoreMinor options) then CHR ''^'' # q'
               else if truthy (ignorePatch options) then CHR ''~'' # q'
               else q'))"
    by (simp add: compareBrowserSemvers_normalized referenceVersion_def)
  have e1: "compareBrowserSemvers ''10.2.1'' ''10.2.0'' (flags Absent (Given True) Absent) = Inr True"
    by (simp add: compareBrowserSemvers_def referenceVersion_def truthy_def flags_def
        coerce_eval engine_eval)
  have e2: "compareBrowserSemvers ''10.3.0'' ''10.2.0'' (flags Absent (Given True) Absent) = Inr False"
    by (simp add: compareBrowserSemvers_def referenceVersion_def truthy_def flags_def
        coerce_eval engine_eval)
  from g e1 e2 show ?thesis by blast
qed

theorem compareBrowserSemvers_reference_range_witness:
  "compareBrowserSemvers ''10.3'' ''10.2'' (flags (Given True) (Given True) Absent)
     = Inr (semver_satisfies ''10.3.0'' ''^10.2.0'')
   \<and> semver_satisfies ''10.3.0'' ''^10.2.0''
   \<and> compareBrowserSemvers ''10.2.7'' ''10.2'' (flags (Given False) Absent Absent)
     = Inr (semver_satisfies ''10.2.7'' ''10.2.0'')
   \<and> semver_satisfies ''10.2.7'' ''10.2.0'' = False"
  using
    compareBrowserSemvers_reference_range
      [of "''10.3''" "''10.3.0''" "''10.2''" "''10.2.0''" "flags (Given True) (Given True) Absent"]
    compareBrowserSemvers_reference_range
      [of "''10.2.7''" "''10.2.7''" "''10.2''" "''10.2.0''" "flags (Given False) Absent Absent"]
  by (simp add: truthy_def flags_def coerce_eval engine_eval)

text \<open>
  C1 as the spec states it fails where both flags are set: the spec's range for query
  \<open>10.2.0\<close> is \<open>~10.2.0\<close>, which \<open>10.3.0\<close> does not satisfy, and the code answers true.
\<close>

theorem compareBrowserSemvers_tilde_counterexample:
  "semverify (Some ''10.3.0'') = Some ''10.3.0''
   \<and> semverify (Some ''10.2.0'') = Some ''10.2.0''
   \<and> compareBrowserSemvers ''10.3.0'' ''10.2.0'' (flags (Given True) (Given True) Absent) = Inr True
   \<and> semver_satisfies ''10.3.0'' (CHR ''~'' # ''10.2.0'') = False"
  by (simp add: compareBrowserSemvers_def referenceVersion_def truthy_def flags_def
      coerce_eval engine_eval)

section \<open>compareBrowserSemvers: allowHigherVersions\<close>

text \<open>
  C5. For version strings \<open>a\<close> and \<open>q\<close> that both normalize and options with
  \<open>allowHigherVersions\<close> set, \<open>compareBrowserSemvers\<close> is true exactly when normalized
  \<open>a\<close> is at least normalized \<open>q\<close> in the order on (major, minor, patch), whatever
  \<open>ignoreMinor\<close> and \<open>ignorePatch\<close> are; \<open>9.0.0\<close> against \<open>10.0.0\<close> is false and
  \<open>11.0.0\<close> against \<open>10.0.0\<close> is true.
\<close>

theorem compareBrowserSemvers_allowHigherVersions:
  "(semverify (Some a) = Some a' \<and> semverify (Some q) = Some q'
      \<and> truthy (allowHigherVersions options) \<longrightarrow>
     (\<exists>va vq. semver_parse a' = Some va \<and> semver_parse q' = Some vq
        \<and> compareBrowserSemvers a q options = Inr (semver_ge va vq)
        \<and> compareBrowserSemvers a q (options\<lparr>ignoreMinor := im, ignorePatch := ip\<rparr>)
            = Inr (semver_ge va vq)))
   \<and> compareBrowserSemvers ''9.0.0'' ''10.0.0'' (flags im ip (Given True)) = Inr False
   \<and> compareBrowserSemvers ''11.0.0'' ''10.0.0'' (flags im ip (Given True)) = Inr True"
proof -
  have g: "semverify (Some a) = Some a' \<and> semverify (Some q) = Some q'
      \<and> truthy (allowHigherVersions options) \<longrightarrow>
     (\<exists>va vq. semver_parse a' = Some va \<and> semver_parse q' = Some vq
        \<and> compareBrowserSemvers a q options = Inr (semver_ge va vq)
        \<and> compareBrowserSemvers a q (options\<lparr>ignoreMinor := im, ignorePatch := ip\<rparr>)
            = Inr (semver_ge va vq))"
  proof (intro impI, elim conjE)
    assume a: "semverify (Some a) = Some a'" and q: "semverify (Some q) = Some q'"
      and h: "truthy (allowHigherVersions options)"
    obtain va where va: "semver_parse a' = Some va" using semverify_parse [OF a] by blast
    obtain vq where vq: "semver_parse q' = Some vq" using semverify_parse [OF q] by blast
    have "compareBrowserSemvers a q options = Inr (semver_ge va vq)"
      using h va vq by (simp add: compareBrowserSemvers_normalized [OF a q] semver_gte_def)
    moreover have "compareBrowserSemvers a q (options\<lparr>ignoreMinor := im, ignorePatch := ip\<rparr>)
        = Inr (semver_ge va vq)"
      using h va vq by (simp add: compareBrowserSemvers_normalized [OF a q] semver_gte_def)
    ultimately show "\<exists>va vq. semver_parse a' = Some va \<and> semver_parse q' = Some vq
        \<and> compareBrowserSemvers a q options = Inr (semver_ge va vq)
        \<and> compareBrowserSemvers a q (options\<lparr>ignoreMinor := im, ignorePatch := ip\<rparr>)
            = Inr (semver_ge va vq)"
      using va vq by blast
  qed
  have e1: "compareBrowserSemvers ''9.0.0'' ''10.0.0'' (flags im ip (Given True)) = Inr False"
    by (simp add: compareBrowserSemvers_def truthy_def flags_def coerce_eval engine_eval)
  have e2: "compareBrowserSemvers ''11.0.0'' ''10.0.0'' (flags im ip (Given True)) = Inr True"
    by (simp add: compareBrowserSemvers_def truthy_def flags_def coerce_eval engine_eval)
  from g e1 e2 show ?thesis by blast
qed

theorem compareBrowserSemvers_allowHigherVersions_witness:
  "compareBrowserSemvers ''12.1'' ''10.2'' (flags (Given True) (Given False) (Given True)) = Inr True
   \<and> compareBrowserSemvers ''12.1'' ''10.2'' (flags Absent (Given True) (Given True)) = Inr True"
  using compareBrowserSemvers_allowHigherVersions
    [where a = "''12.1''" and a' = "''12.1.0''" and q = "''10.2''" and q' = "''10.2.0''"
       and options = "flags (Given True) (Given False) (Given True)"
       and im = Absent and ip = "Given True"]
  by (simp add: truthy_def flags_def coerce_eval engine_eval)

section \<open>generateSemversInRange: every range token\<close>

text \<open>
  C4 fails on the code for a range across majors. \<open>generateSemversInRange\<close> (the spec's
  \<open>expandRange\<close>) splits the token on the hyphen, takes the first two pieces as start and
  end and normalizes each. If either fails to normalize the result is the empty list.
  Otherwise, with \<open>s\<close> and \<open>e\<close> the normalized start and end: when \<open>e\<close> is below \<open>s\<close> the
  result is the empty list; when both have the same major (the minor of \<open>e\<close> below the
  largest safe integer, and fewer than \<open>2^32\<close> versions to list) the result is \<open>s\<close>
  followed by the versions \<open>major.k.0\<close> for the minors \<open>k\<close> after that of \<open>s\<close> up to that
  of \<open>e\<close>, which are exactly the steps at which \<open>e\<close> is at least the current version; in
  every other case, and so whenever the major of \<open>s\<close> is below the major of \<open>e\<close>, the
  condition of the loop never fails and no list is returned. \<open>10.0-10.2\<close> gives \<open>10.0.0\<close>,
  \<open>10.1.0\<close>, \<open>10.2.0\<close> and \<open>garbage-10.2\<close> gives the empty list; \<open>9.0-10.0\<close> gives no
  list.
\<close>

theorem generateSemversInRange_every_token:
  "(semverify (piece (split_on CHR ''-'' r) 0) = None
      \<or> semverify (piece (split_on CHR ''-'' r) 1) = None \<longrightarrow>
     generateSemversInRange r = Inr [])
   \<and> (semverify (piece (split_on CHR ''-'' r) 0) = Some s'
       \<and> semverify (piece (split_on CHR ''-'' r) 1) = Some e'
       \<and> semver_parse s' = Some s \<and> semver_parse e' = Some e \<longrightarrow>
        generateSemversInRange r =
          (if \<not> semver_ge e s then Inr []
           else if major s = major e \<and> minor e < MAX_SAFE_INTEGER then
             (if MAX_ARRAY_LENGTH \<le> minor e - minor s then Inl Invalid_array_length
              else Inr (s' # map (\<lambda>k. format_semver \<lparr>major = major s, minor = k, patch = 0\<rparr>)
                               [minor s + 1 ..< minor e + 1]))
           else Inl (if MAX_ARRAY_LENGTH \<le> MAX_SAFE_INTEGER - minor s then Invalid_array_length
                     else Invalid_Version))
        \<and> (major s = major e \<longrightarrow>
             (\<forall>k. semver_ge e \<lparr>major = major s, minor = k, patch = 0\<rparr> = (k \<le> minor e)))
        \<and> (major s < major e \<longrightarrow>
             (\<forall>k. semver_ge e \<lparr>major = major s, minor = k, patch = 0\<rparr>)))
   \<and> generateSemversInRange ''10.0-10.2'' = Inr [''10.0.0'', ''10.1.0'', ''10.2.0'']
   \<and> generateSemversInRange ''garbage-10.2'' = Inr []
   \<and> generateSemversInRange ''9.0-10.0'' = Inl Invalid_array_length"
proof -
  have n: "semverify (piece (split_on CHR ''-'' r) 0) = None
      \<or> semverify (piece (split_on CHR ''-'' r) 1) = None \<longrightarrow>
     generateSemversInRange r = Inr []"
    by (auto simp: generateSemversInRange_def Let_def falsy_def)
  have g: "generateSemversInRange r =
          (if \<not> semver_ge e s then Inr []
           else if major s = major e \<and> minor e < MAX_SAFE_INTEGER then
             (if MAX_ARRAY_LENGTH \<le> minor e - minor s then Inl Invalid_array_length
              else Inr (s' # map (\<lambda>k. format_semver \<lparr>major = major s, minor = k, patch = 0\<rparr>)
                               [minor s + 1 ..< minor e + 1]))
           else Inl (if MAX_ARRAY_LENGTH \<le> MAX_SAFE_INTEGER - minor s then Invalid_array_length
                     else Invalid_Version))
        \<and> (major s = major e \<longrightarrow>
             (\<forall>k. semver_ge e \<lparr>major = major s, minor = k, patch = 0\<rparr> = (k \<le> minor e)))
        \<and> (major s < major e \<longrightarrow>
             (\<forall>k. semver_ge e \<lparr>major = major s, minor = k, patch = 0\<rparr>))"
    if a: "semverify (piece (split_on CHR ''-'' r) 0) = Some s'"
      "semverify (piece (split_on CHR ''-'' r) 1) = Some e'"
      "semver_parse s' = Some s" "semver_parse e' = Some e"
    for r s' e' s e
  proof -
    have c2: "major s = major e \<longrightarrow>
        (\<forall>k. semver_ge e \<lparr>major = major s, minor = k, patch = 0\<rparr> = (k \<le> minor e))"
      by (auto simp: semver_ge_def)
    have c3: "major s < major e \<longrightarrow>
        (\<forall>k. semver_ge e \<lparr>major = major s, minor = k, patch = 0\<rparr>)"
      by (simp add: semver_ge_def)
    from generateSemversInRange_cases [OF a] c2 c3 show ?thesis by blast
  qed
  have e1: "generateSemversInRange ''10.0-10.2'' = Inr [''10.0.0'', ''10.1.0'', ''10.2.0'']"
    by (simp add: generateSemversInRange_def range_loop.simps coerce_eval engine_eval)
  have e2: "generateSemversInRange ''garbage-10.2'' = Inr []"
    by (simp add: generateSemversInRange_def range_loop.simps coerce_eval engine_eval)
  have p: "semverify (piece (split_on CHR ''-'' ''9.0-10.0'') 0) = Some ''9.0.0''"
    "semverify (piece (split_on CHR ''-'' ''9.0-10.0'') 1) = Some ''10.0.0''"
    "semver_parse ''9.0.0'' = Some \<lparr>major = 9, minor = 0, patch = 0\<rparr>"
    "semver_parse ''10.0.0'' = Some \<lparr>major = 10, minor = 0, patch = 0\<rparr>"
    by (simp_all add: coerce_eval engine_eval)
  have e3: "generateSemversInRange ''9.0-10.0'' = Inl Invalid_array_length"
    using g [OF p] by (simp add: semver_ge_def MAX_ARRAY_LENGTH_def MAX_SAFE_INTEGER_def)
  from n g e1 e2 e3 show ?thesis by blast
qed

theorem generateSemversInRange_every_token_witness:
  "generateSemversInRange ''9.0-9.2'' = Inr [''9.0.0'', ''9.1.0'', ''9.2.0'']
   \<and> generateSemversInRange ''4.4.3-4.4.4'' = Inr [''4.4.3'']
   \<and> generateSemversInRange ''9.2-9.0'' = Inr []
   \<and> generateSemversInRange ''12-13.1'' = Inl Invalid_array_length
   \<and> generateSemversInRange ''x-y'' = Inr []"
  using
    generateSemversInRange_every_token
      [where r = "''9.0-9.2''" and s' = "''9.0.0''" and e' = "''9.2.0''"
         and s = "\<lparr>major = 9, minor = 0, patch = 0\<rparr>" and e = "\<lparr>major = 9, minor = 2, patch = 0\<rparr>"]
    generateSemversInRange_every_token
      [where r = "''4.4.3-4.4.4''" and s' = "''4.4.3''" and e' = "''4.4.4''"
         and s = "\<lparr>major = 4, minor = 4, patch = 3\<rparr>" and e = "\<lparr>major = 4, minor = 4, patch = 4\<rparr>"]
    generateSemversInRange_every_token
      [where r = "''9.2-9.0''" and s' = "''9.2.0''" and e' = "''9.0.0''"
         and s = "\<lparr>major = 9, minor = 2, patch = 0\<rparr>" and e = "\<lparr>major = 9, minor = 0, patch = 0\<rparr>"]
    generateSemversInRange_every_token
      [where r = "''12-13.1''" and s' = "''12.0.0''" and e' = "''13.1.0''"
         and s = "\<lparr>major = 12, minor = 0, patch = 0\<rparr>" and e = "\<lparr>major = 13, minor = 1, patch = 0\<rparr>"]
    generateSemversInRange_every_token
      [where r = "''x-y''" and s' = "''0.0.0''" and e' = "''0.0.0''"
         and s = "\<lparr>major = 0, minor = 0, patch = 0\<rparr>" and e = "\<lparr>major = 0, minor = 0, patch = 0\<rparr>"]
  by (simp add: coerce_eval engine_eval upt_conv_Cons)

section \<open>generateSemversInRange: a range across majors\<close>

text \<open>
  C9 fails on the code. When both boundaries normalize and the major of the start is
  below the major of the end, the end is at least \<open>major.k.0\<close> for every minor \<open>k\<close>: an
  increment of minor never reaches the end and the condition of the loop never fails.
  The loop runs until the array cannot grow, or, from a start whose minor is within
  \<open>2^32\<close> of the largest safe integer, until the minor leaves the safe integers and \<open>gte\<close>
  throws. No list is returned; \<open>1.0-2.0\<close> is such a token.
\<close>

theorem generateSemversInRange_across_majors:
  "(semverify (piece (split_on CHR ''-'' r) 0) = Some s'
      \<and> semverify (piece (split_on CHR ''-'' r) 1) = Some e'
      \<and> semver_parse s' = Some s \<and> semver_parse e' = Some e
      \<and> major s < major e \<longrightarrow>
     generateSemversInRange r =
       Inl (if MAX_ARRAY_LENGTH \<le> MAX_SAFE_INTEGER - minor s then Invalid_array_length
            else Invalid_Version)
     \<and> (\<forall>k. semver_ge e \<lparr>major = major s, minor = k, patch = 0\<rparr>))
   \<and> generateSemversInRange ''1.0-2.0'' = Inl Invalid_array_length"
proof -
  have g: "generateSemversInRange r =
       Inl (if MAX_ARRAY_LENGTH \<le> MAX_SAFE_INTEGER - minor s then Invalid_array_length
            else Invalid_Version)
     \<and> (\<forall>k. semver_ge e \<lparr>major = major s, minor = k, patch = 0\<rparr>)"
    if a: "semverify (piece (split_on CHR ''-'' r) 0) = Some s'"
      "semverify (piece (split_on CHR ''-'' r) 1) = Some e'"
      "semver_parse s' = Some s" "semver_parse e' = Some e"
      and m: "major s < major e"
    for r s' e' s e
  proof -
    have "semver_ge e s" using m by (simp add: semver_ge_def)
    then have "generateSemversInRange r =
       Inl (if MAX_ARRAY_LENGTH \<le> MAX_SAFE_INTEGER - minor s then Invalid_array_length
            else Invalid_Version)"
      using generateSemversInRange_cases [OF a] m by simp
    moreover have "\<forall>k. semver_ge e \<lparr>major = major s, minor = k, patch = 0\<rparr>"
      using m by (simp add: semver_ge_def)
    ultimately show ?thesis by blast
  qed
  have p: "semverify (piece (split_on CHR ''-'' ''1.0-2.0'') 0) = Some ''1.0.0''"
    "semverify (piece (split_on CHR ''-'' ''1.0-2.0'') 1) = Some ''2.0.0''"
    "semver_parse ''1.0.0'' = Some \<lparr>major = 1, minor = 0, patch = 0\<rparr>"
    "semver_parse ''2.0.0'' = Some \<lparr>major = 2, minor = 0, patch = 0\<rparr>"
    by (simp_all add: coerce_eval engine_eval)
  have "generateSemversInRange ''1.0-2.0'' = Inl Invalid_array_length"
    using g [OF p] by (simp add: MAX_ARRAY_LENGTH_def MAX_SAFE_INTEGER_def)
  with g show ?thesis by blast
qed

theorem generateSemversInRange_across_majors_witness:
  "generateSemversInRange ''4.4-5.0'' = Inl Invalid_array_length
   \<and> generateSemversInRange ''4.9007199254740000-5.0'' = Inl Invalid_Version
   \<and> semver_ge \<lparr>major = 5, minor = 0, patch = 0\<rparr> \<lparr>major = 4, minor = 1000000, patch = 0\<rparr>"
  using
    generateSemversInRange_across_majors
      [where r = "''4.4-5.0''" and s' = "''4.4.0''" and e' = "''5.0.0''"
         and s = "\<lparr>major = 4, minor = 4, patch = 0\<rparr>" and e = "\<lparr>major = 5, minor = 0, patch = 0\<rparr>"]
    generateSemversInRange_across_majors
      [where r = "''4.9007199254740000-5.0''" and s' = "''4.9007199254740000.0''" and e' = "''5.0.0''"
         and s = "\<lparr>major = 4, minor = 9007199254740000, patch = 0\<rparr>"
         and e = "\<lparr>major = 5, minor = 0, patch = 0\<rparr>"]
  by (simp add: coerce_eval engine_eval)

section \<open>normalizeQuery: the first alias key\<close>

lemma find_Some_mem: "find P xs = Some x \<Longrightarrow> x \<in> set xs \<and> P x"
  by (induction xs) (auto split: if_splits)

lemma regex_match_Some:
  assumes "[] \<notin> set keys" "regex_match keys q = Some k"
  shows "\<exists>pre post. q = pre @ k @ post \<and> k \<in> set keys
           \<and> (\<forall>k' \<in> set keys. \<forall>pre' post'. q = pre' @ k' @ post' \<longrightarrow> length pre \<le> length pre')
           \<and> replace_first k rep q = pre @ rep @ post"
  using assms(2)
proof (induction q)
  case Nil
  then have "k \<in> set keys \<and> prefix k []" by (auto dest: find_Some_mem)
  with assms(1) show ?case by auto
next
  case (Cons c cs)
  show ?case
  proof (cases "find (\<lambda>k. prefix k (c # cs)) keys")
    case (Some k')
    with Cons.prems have k: "k' = k" by simp
    from Some k have m: "k \<in> set keys" "prefix k (c # cs)" by (auto dest: find_Some_mem)
    then obtain post where p: "c # cs = k @ post" by (auto simp: prefix_def)
    have "replace_first k rep (c # cs) = rep @ drop (length k) (c # cs)" using m(2) by simp
    also have "drop (length k) (c # cs) = post" unfolding p by simp
    finally have "replace_first k rep (c # cs) = rep @ post" .
    with p m(1) show ?thesis by (intro exI [of _ "[]"] exI [of _ post]) simp
  next
    case None
    then have no: "\<And>k'. k' \<in> set keys \<Longrightarrow> \<not> prefix k' (c # cs)" by (auto simp: find_None_iff)
    from None Cons.prems have "regex_match keys cs = Some k" by simp
    from Cons.IH [OF this] obtain pre post where
      ih: "cs = pre @ k @ post" "k \<in> set keys"
        "\<forall>k' \<in> set keys. \<forall>pre' post'. cs = pre' @ k' @ post' \<longrightarrow> length pre \<le> length pre'"
        "replace_first k rep cs = pre @ rep @ post"
      by blast
    have a: "c # cs = (c # pre) @ k @ post" using ih(1) by simp
    have b: "replace_first k rep (c # cs) = (c # pre) @ rep @ post"
      using no [OF ih(2)] ih(4) by simp
    have d: "\<forall>k' \<in> set keys. \<forall>pre' post'. c # cs = pre' @ k' @ post' \<longrightarrow> length (c # pre) \<le> length pre'"
    proof (intro ballI allI impI)
      fix k' pre' post'
      assume k': "k' \<in> set keys" and e: "c # cs = pre' @ k' @ post'"
      show "length (c # pre) \<le> length pre'"
      proof (cases pre')
        case Nil
        with e have "prefix k' (c # cs)" by (simp add: prefix_def)
        with no [OF k'] show ?thesis by simp
      next
        case (Cons x pre'')
        with e have "cs = pre'' @ k' @ post'" by simp
        with ih(3) k' have "length pre \<le> length pre''" by blast
        with Cons show ?thesis by simp
      qed
    qed
    from a b d ih(2) show ?thesis by blast
  qed
qed

lemma regex_match_None:
  "regex_match keys q = None \<longleftrightarrow> (\<forall>k \<in> set keys. \<not> sublist k q)"
proof (induction q)
  case Nil
  show ?case by (auto simp: find_None_iff)
next
  case (Cons c cs)
  show ?case
  proof (cases "find (\<lambda>k. prefix k (c # cs)) keys")
    case (Some k')
    then have "k' \<in> set keys" "prefix k' (c # cs)" by (auto dest: find_Some_mem)
    then have "\<exists>k \<in> set keys. sublist k (c # cs)" by (auto intro: prefix_imp_sublist)
    with Some show ?thesis by auto
  next
    case None
    then have no: "\<And>k'. k' \<in> set keys \<Longrightarrow> \<not> prefix k' (c # cs)" by (auto simp: find_None_iff)
    have "(\<forall>k \<in> set keys. \<not> sublist k (c # cs)) \<longleftrightarrow> (\<forall>k \<in> set keys. \<not> sublist k cs)"
      using no by (auto simp: sublist_Cons_right)
    with None Cons.IH show ?thesis by simp
  qed
qed

lemma keys_not_Nil: "[] \<notin> set (map fst browserNameMap)"
  by (simp add: browserNameMap_def)


lemma map_of_key:
  "k \<in> set (map fst browserNameMap) \<Longrightarrow> \<exists>n. map_of browserNameMap k = Some n"
  by (cases "map_of browserNameMap k") (auto simp: map_of_eq_None_iff)

text \<open>
  C7. When no alias key occurs in the query as a substring, \<open>normalizeQuery\<close> returns the
  query unchanged. When one does, the query is \<open>pre @ k @ post\<close> for an alias key \<open>k\<close> with
  canonical name \<open>n\<close>, no alias key occurs at a position before \<open>pre\<close> ends, and the result
  is \<open>pre @ n @ post\<close>: one replacement, at the first occurrence of an alias key, the
  rest of the query untouched. In particular \<open>ie 11\<close> becomes \<open>Explorer 11\<close>.
\<close>

theorem normalizeQuery_first_alias:
  "((\<forall>k \<in> set (map fst browserNameMap). \<not> sublist k query) \<longrightarrow> normalizeQuery query = query)
   \<and> ((\<exists>k \<in> set (map fst browserNameMap). sublist k query) \<longrightarrow>
        (\<exists>pre k n post. query = pre @ k @ post \<and> map_of browserNameMap k = Some n
           \<and> normalizeQuery query = pre @ n @ post
           \<and> (\<forall>k' \<in> set (map fst browserNameMap). \<forall>pre' post'.
                 query = pre' @ k' @ post' \<longrightarrow> length pre \<le> length pre')))
   \<and> normalizeQuery ''ie 11'' = ''Explorer 11''"
proof -
  have a: "(\<forall>k \<in> set (map fst browserNameMap). \<not> sublist k query) \<longrightarrow> normalizeQuery query = query"
    using regex_match_None [of "map fst browserNameMap" query]
    by (auto simp: normalizeQuery_def)
  have b: "(\<exists>k \<in> set (map fst browserNameMap). sublist k query) \<longrightarrow>
        (\<exists>pre k n post. query = pre @ k @ post \<and> map_of browserNameMap k = Some n
           \<and> normalizeQuery query = pre @ n @ post
           \<and> (\<forall>k' \<in> set (map fst browserNameMap). \<forall>pre' post'.
                 query = pre' @ k' @ post' \<longrightarrow> length pre \<le> length pre'))"
  proof
    assume "\<exists>k \<in> set (map fst browserNameMap). sublist k query"
    then have "regex_match (map fst browserNameMap) query \<noteq> None"
      using regex_match_None [of "map fst browserNameMap" query] by blast
    then obtain k where k: "regex_match (map fst browserNameMap) query = Some k" by blast
    obtain n where n: "map_of browserNameMap k = Some n"
      using regex_match_Some [OF keys_not_Nil k] map_of_key by blast
    from regex_match_Some [OF keys_not_Nil k, of n] obtain pre post where
      p: "query = pre @ k @ post"
        "\<forall>k' \<in> set (map fst browserNameMap). \<forall>pre' post'.
           query = pre' @ k' @ post' \<longrightarrow> length pre \<le> length pre'"
        "replace_first k n query = pre @ n @ post"
      by blast
    have "normalizeQuery query = pre @ n @ post"
      using k n p(3) by (simp add: normalizeQuery_def alias_text_def)
    with p(1,2) n show "\<exists>pre k n post. query = pre @ k @ post \<and> map_of browserNameMap k = Some n
           \<and> normalizeQuery query = pre @ n @ post
           \<and> (\<forall>k' \<in> set (map fst browserNameMap). \<forall>pre' post'.
                 query = pre' @ k' @ post' \<longrightarrow> length pre \<le> length pre')"
      by blast
  qed
  have c: "normalizeQuery ''ie 11'' = ''Explorer 11''"
    by (simp add: normalizeQuery_def browserNameMap_def alias_text_def)
  from a b c show ?thesis by blast
qed

theorem normalizeQuery_first_alias_witness:
  "normalizeQuery ''last 2 Chrome versions'' = ''last 2 Chrome versions''
   \<and> normalizeQuery ''ie_mob 10, ie 11'' = ''ExplorerMobile 10, ie 11''
   \<and> (\<exists>pre k n post. ''ie_mob 10, ie 11'' = pre @ k @ post \<and> map_of browserNameMap k = Some n
         \<and> normalizeQuery ''ie_mob 10, ie 11'' = pre @ n @ post)"
proof -
  have h1: "\<forall>k \<in> set (map fst browserNameMap). \<not> sublist k ''last 2 Chrome versions''"
    by (simp add: browserNameMap_def sublist_code)
  have "sublist ''ie'' ([] @ ''ie'' @ ''_mob 10, ie 11'')" by (rule sublist_appendI)
  then have h2: "\<exists>k \<in> set (map fst browserNameMap). sublist k ''ie_mob 10, ie 11''"
    by (simp add: browserNameMap_def)
  have e: "normalizeQuery ''ie_mob 10, ie 11'' = ''ExplorerMobile 10, ie 11''"
    by (simp add: normalizeQuery_def browserNameMap_def alias_text_def)
  from normalizeQuery_first_alias [of "''last 2 Chrome versions''"] h1
  have "normalizeQuery ''last 2 Chrome versions'' = ''last 2 Chrome versions''" by blast
  moreover from normalizeQuery_first_alias [of "''ie_mob 10, ie 11''"] h2
  have "\<exists>pre k n post. ''ie_mob 10, ie 11'' = pre @ k @ post \<and> map_of browserNameMap k = Some n
         \<and> normalizeQuery ''ie_mob 10, ie 11'' = pre @ n @ post"
    by blast
  ultimately show ?thesis using e by blast
qed

section \<open>Facts about parseBrowsersList and matchesUA\<close>


lemma split_browser_no_space:
  "CHR '' '' \<notin> set e \<Longrightarrow> split_browser e = (e, None)"
  by (simp add: split_browser_def split_on_none piece_def)


lemma map_result_append:
  "map_result f (xs @ ys) =
     (case map_result f xs of
        Inl e \<Rightarrow> Inl e
      | Inr a \<Rightarrow> (case map_result f ys of Inl e \<Rightarrow> Inl e | Inr b \<Rightarrow> Inr (a @ b)))"
  by (induction xs) (auto split: sum.splits)

lemma parseBrowsersList_append:
  "parseBrowsersList (xs @ ys) =
     (case parseBrowsersList xs of
        Inl err \<Rightarrow> Inl err
      | Inr a \<Rightarrow> (case parseBrowsersList ys of Inl err \<Rightarrow> Inl err | Inr b \<Rightarrow> Inr (a @ b)))"
  by (simp add: parseBrowsersList_def map_result_append split: sum.splits)

lemma parseBrowsersList_single:
  "parseBrowsersList [e] =
     (if snd (split_browser e) = Some ''TP'' then Inr [] else expand_browser (split_browser e))"
  by (simp add: parseBrowsersList_def split: sum.splits)

lemma parseBrowsersList_Cons:
  "parseBrowsersList (e # bs) =
     (case parseBrowsersList [e] of
        Inl err \<Rightarrow> Inl err
      | Inr a \<Rightarrow> (case parseBrowsersList bs of Inl err \<Rightarrow> Inl err | Inr b \<Rightarrow> Inr (a @ b)))"
  using parseBrowsersList_append [of "[e]" bs] by simp

lemma parseBrowsersList_no_space_single:
  "CHR '' '' \<notin> set e \<Longrightarrow> parseBrowsersList [e] = Inl Undefined_indexOf"
  by (simp add: parseBrowsersList_single split_browser_no_space expand_browser_def)

lemma parseBrowsersList_no_space:
  "e \<in> set bs \<Longrightarrow> CHR '' '' \<notin> set e \<Longrightarrow> \<exists>err. parseBrowsersList bs = Inl err"
proof (induction bs)
  case Nil
  then show ?case by simp
next
  case (Cons b bs)
  show ?case
  proof (cases "b = e")
    case True
    then have "parseBrowsersList [b] = Inl Undefined_indexOf"
      using Cons.prems(2) by (simp add: parseBrowsersList_no_space_single)
    then show ?thesis
      by (subst parseBrowsersList_Cons) simp
  next
    case False
    then have "\<exists>err. parseBrowsersList bs = Inl err" using Cons by simp
    then show ?thesis
      by (auto simp: parseBrowsersList_Cons [of b bs] split: sum.splits)
  qed
qed

lemma split_browser_has_version:
  assumes "CHR '' '' \<in> set e"
  shows "\<exists>v. snd (split_browser e) = Some v"
proof -
  from assms obtain n rest where e: "e = n @ CHR '' '' # rest" "CHR '' '' \<notin> set n"
    by (auto dest: split_list_first)
  have "split_on CHR '' '' e = n # split_on CHR '' '' rest"
    unfolding e(1) using e(2) by (rule split_on_first)
  moreover have "0 < length (split_on CHR '' '' rest)"
    using split_on_not_Nil [of "CHR '' ''" rest] by simp
  ultimately show ?thesis by (simp add: split_browser_def piece_def)
qed

lemma map_result_total:
  "(\<And>x. x \<in> set xs \<Longrightarrow> \<exists>y. f x = Inr y) \<Longrightarrow> \<exists>ys. map_result f xs = Inr ys"
proof (induction xs)
  case Nil
  show ?case by simp
next
  case (Cons x xs)
  then obtain y ys where "f x = Inr y" "map_result f xs = Inr ys"
    by (metis list.set_intros(1) list.set_intros(2))
  then show ?case by simp
qed

lemma parseBrowsersList_total:
  assumes "\<forall>e \<in> set bs. CHR '' '' \<in> set e"
    "\<forall>e \<in> set bs. \<forall>v. snd (split_browser e) = Some v \<and> indexOf_pos CHR ''-'' v \<longrightarrow>
       (\<exists>vs. generateSemversInRange v = Inr vs)"
  shows "\<exists>es. parseBrowsersList bs = Inr es"
proof -
  have "\<exists>y. expand_browser b = Inr y"
    if "b \<in> set (filter (\<lambda>b. snd b \<noteq> Some ''TP'') (map split_browser bs))" for b
  proof -
    from that obtain e where e: "e \<in> set bs" "b = split_browser e" by auto
    from assms(1) e(1) obtain v where v: "snd (split_browser e) = Some v"
      using split_browser_has_version by blast
    show ?thesis
    proof (cases "indexOf_pos CHR ''-'' v")
      case True
      with assms(2) e(1) v obtain vs where "generateSemversInRange v = Inr vs" by blast
      with v True e(2) show ?thesis by (simp add: expand_browser_def)
    next
      case False
      with v e(2) show ?thesis by (simp add: expand_browser_def)
    qed
  qed
  then obtain ys where
    "map_result expand_browser (filter (\<lambda>b. snd b \<noteq> Some ''TP'') (map split_browser bs)) = Inr ys"
    using map_result_total [of "filter (\<lambda>b. snd b \<noteq> Some ''TP'') (map split_browser bs)" expand_browser]
    by blast
  then show ?thesis by (simp add: parseBrowsersList_def)
qed

lemma some_result_all_False:
  "(\<And>x. x \<in> set xs \<Longrightarrow> f x = Inr False) \<Longrightarrow> some_result f xs = Inr False"
  by (induction xs) simp_all

lemma browser_matches_null:
  "family ua = None \<or> version ua = None \<Longrightarrow> browser_matches ua options b = Inr False"
  by (auto simp: browser_matches_def falsy_def)

section \<open>parseBrowsersList: an entry without a space\<close>

lemmas parse_eval =
  parseBrowsersList_def split_browser_def expand_browser_def indexOf_pos_def normalizedName_def
  browserNameMap_def object_prototype_keys_def piece_def

text \<open>
  C10. An entry without a space splits into one piece, so its version is undefined; it
  passes the filter on \<open>TP\<close>, and the hyphen test on the undefined version throws. A
  list that contains such an entry makes \<open>parseBrowsersList\<close> fail with an error (the
  TypeError of that test when the entries before it parse), and \<open>matchesUA\<close> fails with
  it instead of answering false. A list in which every entry contains a space, and every
  range expands, is parsed.
\<close>

theorem parseBrowsersList_needs_space:
  "(CHR '' '' \<notin> set e \<longrightarrow>
      split_browser e = (e, None)
      \<and> snd (split_browser e) \<noteq> Some ''TP''
      \<and> expand_browser (split_browser e) = Inl Undefined_indexOf
      \<and> parseBrowsersList [e] = Inl Undefined_indexOf)
   \<and> (e \<in> set bs \<and> CHR '' '' \<notin> set e \<longrightarrow> (\<exists>err. parseBrowsersList bs = Inl err))
   \<and> (CHR '' '' \<notin> set e \<and> parseBrowsersList pre = Inr es \<longrightarrow>
        parseBrowsersList (pre @ e # post) = Inl Undefined_indexOf)
   \<and> (uaString \<noteq> []
        \<and> browserslist (map_option (map normalizeQuery) (browsers opts)) (env opts)
             (case path opts of None \<Rightarrow> cwd | Some p \<Rightarrow> if p = [] then cwd else p) = Inr bs
        \<and> e \<in> set bs \<and> CHR '' '' \<notin> set e \<longrightarrow>
        (\<exists>err. matchesUA browserslist cwd parser uaString opts = Inl err))
   \<and> ((\<forall>x \<in> set xs. CHR '' '' \<in> set x)
        \<and> (\<forall>x \<in> set xs. \<forall>v. snd (split_browser x) = Some v \<and> indexOf_pos CHR ''-'' v \<longrightarrow>
              (\<exists>vs. generateSemversInRange v = Inr vs)) \<longrightarrow>
        (\<exists>ys. parseBrowsersList xs = Inr ys))"
proof -
  have t: "(\<forall>x \<in> set xs. CHR '' '' \<in> set x)
        \<and> (\<forall>x \<in> set xs. \<forall>v. snd (split_browser x) = Some v \<and> indexOf_pos CHR ''-'' v \<longrightarrow>
              (\<exists>vs. generateSemversInRange v = Inr vs)) \<longrightarrow>
        (\<exists>ys. parseBrowsersList xs = Inr ys)"
    using parseBrowsersList_total [of xs] by blast
  have a: "CHR '' '' \<notin> set e \<longrightarrow>
      split_browser e = (e, None)
      \<and> snd (split_browser e) \<noteq> Some ''TP''
      \<and> expand_browser (split_browser e) = Inl Undefined_indexOf
      \<and> parseBrowsersList [e] = Inl Undefined_indexOf"
    by (simp add: split_browser_no_space expand_browser_def parseBrowsersList_no_space_single)
  have b: "e \<in> set bs \<and> CHR '' '' \<notin> set e \<longrightarrow> (\<exists>err. parseBrowsersList bs = Inl err)"
    using parseBrowsersList_no_space by blast
  have c: "CHR '' '' \<notin> set e \<and> parseBrowsersList pre = Inr es \<longrightarrow>
        parseBrowsersList (pre @ e # post) = Inl Undefined_indexOf"
  proof
    assume h: "CHR '' '' \<notin> set e \<and> parseBrowsersList pre = Inr es"
    then have "parseBrowsersList (e # post) = Inl Undefined_indexOf"
      by (subst parseBrowsersList_Cons) (simp add: parseBrowsersList_no_space_single)
    with h show "parseBrowsersList (pre @ e # post) = Inl Undefined_indexOf"
      by (simp add: parseBrowsersList_append)
  qed
  have d: "uaString \<noteq> []
        \<and> browserslist (map_option (map normalizeQuery) (browsers opts)) (env opts)
             (case path opts of None \<Rightarrow> cwd | Some p \<Rightarrow> if p = [] then cwd else p) = Inr bs
        \<and> e \<in> set bs \<and> CHR '' '' \<notin> set e \<longrightarrow>
        (\<exists>err. matchesUA browserslist cwd parser uaString opts = Inl err)"
  proof (intro impI, elim conjE)
    assume h: "uaString \<noteq> []"
      "browserslist (map_option (map normalizeQuery) (browsers opts)) (env opts)
             (case path opts of None \<Rightarrow> cwd | Some p \<Rightarrow> if p = [] then cwd else p) = Inr bs"
      "e \<in> set bs" "CHR '' '' \<notin> set e"
    from parseBrowsersList_no_space [OF h(3,4)] obtain err where "parseBrowsersList bs = Inl err"
      by blast
    with h(1,2) show "\<exists>err. matchesUA browserslist cwd parser uaString opts = Inl err"
      by (simp add: matchesUA_def Let_def)
  qed
  from a b c d t show ?thesis by blast
qed

theorem parseBrowsersList_needs_space_witness:
  "parseBrowsersList [''chrome''] = Inl Undefined_indexOf
   \<and> (\<exists>err. parseBrowsersList [''ie 11'', ''chrome''] = Inl err)
   \<and> parseBrowsersList ([''ie 11''] @ ''chrome'' # [''firefox 70'']) = Inl Undefined_indexOf
   \<and> (\<exists>err. matchesUA (\<lambda>q e p. Inr [''ie 11'', ''chrome'']) ''/srv''
                (\<lambda>u. \<lparr>browser_name = None, browser_version = None, os_name = None,
                        os_version = None, engine_name = None, engine_version = None,
                        device_type = None\<rparr>)
                ''Mozilla/5.0'' (flags Absent Absent Absent) = Inl err)
   \<and> (\<exists>ys. parseBrowsersList [''ie 11'', ''op_mini all''] = Inr ys)"
proof -
  have p: "parseBrowsersList [''ie 11''] = Inr [\<lparr>entry_family = Str ''Explorer'', entry_version = ''11''\<rparr>]"
    by (simp add: parse_eval)
  have s: "split_browser ''ie 11'' = (''ie'', Some ''11'')"
    "split_browser ''op_mini all'' = (''op_mini'', Some ''all'')"
    by (simp_all add: split_browser_def piece_def)
  have i: "\<not> indexOf_pos CHR ''-'' ''11''" "\<not> indexOf_pos CHR ''-'' ''all''"
    by (simp_all add: indexOf_pos_def)
  show ?thesis
    using parseBrowsersList_needs_space
      [where e = "''chrome''" and bs = "[''ie 11'', ''chrome'']" and pre = "[''ie 11'']"
         and es = "[\<lparr>entry_family = Str ''Explorer'', entry_version = ''11''\<rparr>]"
         and post = "[''firefox 70'']" and uaString = "''Mozilla/5.0''"
         and browserslist = "\<lambda>q e p. Inr [''ie 11'', ''chrome'']" and cwd = "''/srv''"
         and opts = "flags Absent Absent Absent"
         and parser = "\<lambda>u. \<lparr>browser_name = None, browser_version = None, os_name = None,
                        os_version = None, engine_name = None, engine_version = None,
                        device_type = None\<rparr>"
         and xs = "[''ie 11'', ''op_mini all'']"]
      p s i
    by simp
qed

section \<open>matchesUA: the answers that are false\<close>

text \<open>
  C8, as the code has it. \<open>matchesUA\<close> answers false for the empty user-agent string,
  whatever the options and whatever the support-policy resolver would do (it is not
  consulted). For a non-empty string whose resolved family is null or whose resolved
  version is null, it answers false for every options value and every query-result list
  that the resolver returns and \<open>parseBrowsersList\<close> parses, which it does for every list
  whose entries each contain a space and whose ranges expand. The null checks run inside
  the scan, after the list is parsed: a list with an entry that has no space makes the
  parser throw first, and \<open>matchesUA\<close> with it.
\<close>

theorem matchesUA_false:
  "matchesUA browserslist cwd parser [] opts = Inr False
   \<and> (browserslist (map_option (map normalizeQuery) (browsers opts)) (env opts)
         (case path opts of None \<Rightarrow> cwd | Some p \<Rightarrow> if p = [] then cwd else p) = Inr bs
       \<and> parseBrowsersList bs = Inr es
       \<and> (family (resolveUserAgent parser uaString) = None
            \<or> version (resolveUserAgent parser uaString) = None) \<longrightarrow>
      matchesUA browserslist cwd parser uaString opts = Inr False)
   \<and> (browserslist (map_option (map normalizeQuery) (browsers opts)) (env opts)
         (case path opts of None \<Rightarrow> cwd | Some p \<Rightarrow> if p = [] then cwd else p) = Inr bs
       \<and> (\<forall>x \<in> set bs. CHR '' '' \<in> set x)
       \<and> (\<forall>x \<in> set bs. \<forall>v. snd (split_browser x) = Some v \<and> indexOf_pos CHR ''-'' v \<longrightarrow>
              (\<exists>vs. generateSemversInRange v = Inr vs))
       \<and> (family (resolveUserAgent parser uaString) = None
            \<or> version (resolveUserAgent parser uaString) = None) \<longrightarrow>
      matchesUA browserslist cwd parser uaString opts = Inr False)
   \<and> (uaString \<noteq> []
       \<and> browserslist (map_option (map normalizeQuery) (browsers opts)) (env opts)
            (case path opts of None \<Rightarrow> cwd | Some p \<Rightarrow> if p = [] then cwd else p) = Inr bs
       \<and> x \<in> set bs \<and> CHR '' '' \<notin> set x \<longrightarrow>
      (\<exists>err. matchesUA browserslist cwd parser uaString opts = Inl err))"
proof -
  have a: "matchesUA browserslist cwd parser [] opts = Inr False"
    by (simp add: matchesUA_def)
  have b: "browserslist (map_option (map normalizeQuery) (browsers opts)) (env opts)
         (case path opts of None \<Rightarrow> cwd | Some p \<Rightarrow> if p = [] then cwd else p) = Inr bs
       \<and> parseBrowsersList bs = Inr es
       \<and> (family (resolveUserAgent parser uaString) = None
            \<or> version (resolveUserAgent parser uaString) = None) \<longrightarrow>
      matchesUA browserslist cwd parser uaString opts = Inr False"
  proof (intro impI, elim conjE)
    assume h: "browserslist (map_option (map normalizeQuery) (browsers opts)) (env opts)
         (case path opts of None \<Rightarrow> cwd | Some p \<Rightarrow> if p = [] then cwd else p) = Inr bs"
      "parseBrowsersList bs = Inr es"
      "family (resolveUserAgent parser uaString) = None
            \<or> version (resolveUserAgent parser uaString) = None"
    have "some_result (browser_matches (resolveUserAgent parser uaString) options) es = Inr False"
      for options
      using h(3) by (intro some_result_all_False browser_matches_null)
    with h(1,2) show "matchesUA browserslist cwd parser uaString opts = Inr False"
      by (simp add: matchesUA_def Let_def)
  qed
  have c: "matchesUA browserslist cwd parser uaString opts = Inr False"
    if h: "browserslist (map_option (map normalizeQuery) (browsers opts)) (env opts)
         (case path opts of None \<Rightarrow> cwd | Some p \<Rightarrow> if p = [] then cwd else p) = Inr bs"
      "\<forall>x \<in> set bs. CHR '' '' \<in> set x"
      "\<forall>x \<in> set bs. \<forall>v. snd (split_browser x) = Some v \<and> indexOf_pos CHR ''-'' v \<longrightarrow>
              (\<exists>vs. generateSemversInRange v = Inr vs)"
      "family (resolveUserAgent parser uaString) = None
            \<or> version (resolveUserAgent parser uaString) = None"
  proof -
    from parseBrowsersList_total [OF h(2,3)] obtain ys where ys: "parseBrowsersList bs = Inr ys"
      by blast
    have "some_result (browser_matches (resolveUserAgent parser uaString) options) ys = Inr False"
      for options
      using h(4) by (intro some_result_all_False browser_matches_null)
    with h(1) ys show ?thesis
      by (simp add: matchesUA_def Let_def)
  qed
  have d: "\<exists>err. matchesUA browserslist cwd parser uaString opts = Inl err"
    if h: "uaString \<noteq> []"
      "browserslist (map_option (map normalizeQuery) (browsers opts)) (env opts)
            (case path opts of None \<Rightarrow> cwd | Some p \<Rightarrow> if p = [] then cwd else p) = Inr bs"
      "x \<in> set bs" "CHR '' '' \<notin> set x"
  proof -
    from parseBrowsersList_no_space [OF h(3,4)] obtain err where "parseBrowsersList bs = Inl err"
      by blast
    with h(1,2) show ?thesis by (simp add: matchesUA_def Let_def)
  qed
  from a b c d show ?thesis by blast
qed

theorem matchesUA_false_witness:
  "matchesUA (\<lambda>q e p. Inl (Browserslist_error ''unknown env'')) ''/srv''
      (\<lambda>u. \<lparr>browser_name = None, browser_version = None, os_name = None,
              os_version = None, engine_name = None, engine_version = None,
              device_type = None\<rparr>)
      [] (flags Absent Absent Absent) = Inr False
   \<and> matchesUA (\<lambda>q e p. Inr [''chrome 80'', ''ie 11'']) ''/srv''
      (\<lambda>u. \<lparr>browser_name = None, browser_version = Some ''80.0.1'', os_name = None,
              os_version = None, engine_name = None, engine_version = None,
              device_type = None\<rparr>)
      ''Mozilla/5.0'' (flags Absent Absent Absent) = Inr False
   \<and> matchesUA (\<lambda>q e p. Inr [''chrome 80'', ''ie 11'']) ''/srv''
      (\<lambda>u. \<lparr>browser_name = Some ''Chrome'', browser_version = Some ''beta'', os_name = None,
              os_version = None, engine_name = None, engine_version = None,
              device_type = None\<rparr>)
      ''Mozilla/5.0'' (flags Absent Absent Absent) = Inr False"
proof -
  have p: "parseBrowsersList [''chrome 80'', ''ie 11''] =
      Inr [\<lparr>entry_family = Str ''chrome'', entry_version = ''80''\<rparr>,
           \<lparr>entry_family = Str ''Explorer'', entry_version = ''11''\<rparr>]"
    by (simp add: parse_eval)
  have f: "family (resolveUserAgent
      (\<lambda>u. \<lparr>browser_name = None, browser_version = Some ''80.0.1'', os_name = None,
              os_version = None, engine_name = None, engine_version = None,
              device_type = None\<rparr>) ''Mozilla/5.0'') = None"
    by (simp add: resolveUserAgent_def Let_def)
  have v: "version (resolveUserAgent
      (\<lambda>u. \<lparr>browser_name = Some ''Chrome'', browser_version = Some ''beta'', os_name = None,
              os_version = None, engine_name = None, engine_version = None,
              device_type = None\<rparr>) ''Mozilla/5.0'') = None"
    by (simp add: resolveUserAgent_def coerce_eval)
  have s: "split_browser ''chrome 80'' = (''chrome'', Some ''80'')"
    "split_browser ''ie 11'' = (''ie'', Some ''11'')"
    by (simp_all add: split_browser_def piece_def)
  have i: "\<not> indexOf_pos CHR ''-'' ''80''" "\<not> indexOf_pos CHR ''-'' ''11''"
    by (simp_all add: indexOf_pos_def)
  show ?thesis
    using
      matchesUA_false
        [where browserslist = "\<lambda>q e p. Inl (Browserslist_error ''unknown env'')"
           and cwd = "''/srv''" and opts = "flags Absent Absent Absent"
           and bs = "[]" and es = "[]" and uaString = "[]" and x = "[]"
           and parser = "\<lambda>u. \<lparr>browser_name = None, browser_version = None, os_name = None,
              os_version = None, engine_name = None, engine_version = None,
              device_type = None\<rparr>"]
      matchesUA_false
        [where browserslist = "\<lambda>q e p. Inr [''chrome 80'', ''ie 11'']"
           and cwd = "''/srv''" and opts = "flags Absent Absent Absent"
           and bs = "[''chrome 80'', ''ie 11'']"
           and es = "[\<lparr>entry_family = Str ''chrome'', entry_version = ''80''\<rparr>,
                      \<lparr>entry_family = Str ''Explorer'', entry_version = ''11''\<rparr>]"
           and uaString = "''Mozilla/5.0''" and x = "''ie 11''"
           and parser = "\<lambda>u. \<lparr>browser_name = None, browser_version = Some ''80.0.1'', os_name = None,
              os_version = None, engine_name = None, engine_version = None,
              device_type = None\<rparr>"]
      matchesUA_false
        [where browserslist = "\<lambda>q e p. Inr [''chrome 80'', ''ie 11'']"
           and cwd = "''/srv''" and opts = "flags Absent Absent Absent"
           and bs = "[''chrome 80'', ''ie 11'']"
           and es = "[\<lparr>entry_family = Str ''chrome'', entry_version = ''80''\<rparr>,
                      \<lparr>entry_family = Str ''Explorer'', entry_version = ''11''\<rparr>]"
           and uaString = "''Mozilla/5.0''" and x = "''ie 11''"
           and parser = "\<lambda>u. \<lparr>browser_name = Some ''Chrome'', browser_version = Some ''beta'', os_name = None,
              os_version = None, engine_name = None, engine_version = None,
              device_type = None\<rparr>"]
      p f v s i
    by simp
qed

text \<open>
  C8 as the spec states it fails on a query-result list with an entry that has no
  space, and on one with a range across majors: the resolved family is null and the
  answer is an error, not false.
\<close>

theorem matchesUA_false_counterexample:
  "family (resolveUserAgent
      (\<lambda>u. \<lparr>browser_name = None, browser_version = None, os_name = None,
              os_version = None, engine_name = None, engine_version = None,
              device_type = None\<rparr>) ''Mozilla/5.0'') = None
   \<and> matchesUA (\<lambda>q e p. Inr [''ie 11'', ''chrome'']) ''/srv''
      (\<lambda>u. \<lparr>browser_name = None, browser_version = None, os_name = None,
              os_version = None, engine_name = None, engine_version = None,
              device_type = None\<rparr>)
      ''Mozilla/5.0'' (flags Absent Absent Absent) = Inl Undefined_indexOf
   \<and> matchesUA (\<lambda>q e p. Inr [''chrome 1.0-2.0'']) ''/srv''
      (\<lambda>u. \<lparr>browser_name = None, browser_version = None, os_name = None,
              os_version = None, engine_name = None, engine_version = None,
              device_type = None\<rparr>)
      ''Mozilla/5.0'' (flags Absent Absent Absent) = Inl Invalid_array_length"
proof -
  have f: "family (resolveUserAgent
      (\<lambda>u. \<lparr>browser_name = None, browser_version = None, os_name = None,
              os_version = None, engine_name = None, engine_version = None,
              device_type = None\<rparr>) ''Mozilla/5.0'') = None"
    by (simp add: resolveUserAgent_def Let_def)
  have p1: "parseBrowsersList [''ie 11'', ''chrome''] = Inl Undefined_indexOf"
    by (simp add: parse_eval)
  have s: "semverify (piece (split_on CHR ''-'' ''1.0-2.0'') 0) = Some ''1.0.0''"
    "semverify (piece (split_on CHR ''-'' ''1.0-2.0'') 1) = Some ''2.0.0''"
    "semver_parse ''1.0.0'' = Some \<lparr>major = 1, minor = 0, patch = 0\<rparr>"
    "semver_parse ''2.0.0'' = Some \<lparr>major = 2, minor = 0, patch = 0\<rparr>"
    by (simp_all add: coerce_eval engine_eval)
  have g: "generateSemversInRange ''1.0-2.0'' = Inl Invalid_array_length"
    using generateSemversInRange_cases [OF s]
    by (simp add: semver_ge_def MAX_ARRAY_LENGTH_def MAX_SAFE_INTEGER_def)
  have p2: "parseBrowsersList [''chrome 1.0-2.0''] = Inl Invalid_array_length"
    by (simp add: parse_eval g)
  from f p1 p2 show ?thesis by (simp add: matchesUA_def flags_def)
qed

section \<open>parseBrowsersList: entry by entry\<close>






end
